theory Spec2Isabelle
  imports Complex_Main "HOL-Library.AList"
begin

section \<open>Data model\<close>

text \<open>
  Variables are identified by their integer id. A numpy array is an element of a real
  normed vector space \<open>'a\<close>: addition, subtraction and scaling are the elementwise
  operations of numpy, \<open>0\<close> is \<open>np.zeros(shape)\<close> (and the scalar \<open>0.0\<close> that
  broadcasts against it), and \<open>norm\<close> is the Euclidean norm of the flattened array.
  Arithmetic is exact (real numbers stand for the 64-bit floats of the source).

  A Python \<open>dict\<close> is an association list in insertion order; \<open>d[key] = v\<close> is
  \<open>AList.update\<close>, which overwrites in place or appends at the end.
\<close>

type_synonym key = nat

type_synonym 'v dict = "(key \<times> 'v) list"

datatype status = OPTIMAL | INFEASIBLE | UNBOUNDED | OTHER_FAILURE

text \<open>
  Modelled from the spec: the constant \<open>cvxpy.settings.INF_OR_UNB\<close> is imported by
  \<open>consensus.py\<close> and not defined in the repository; the spec names the statuses
  optimal, infeasible, unbounded and other-failure, and the test of \<open>w_project\<close> is
  "infeasible or unbounded".
\<close>

definition INF_OR_UNB :: "status list" where
  "INF_OR_UNB = [INFEASIBLE, UNBOUNDED]"

datatype error =
    RuntimeError_infeasible
  | RuntimeError_mismatch
  | KeyError key
  | IndexError
  | TypeError
  | ValueError_m_accel
  | ValueError_negative_dimensions
  | ValueError_concatenate
  | ValueError_unpack
  | WorkerDied error

text \<open>\<open>d[key]\<close> on a plain dict raises \<open>KeyError\<close> for a missing key.\<close>

definition getitem :: "'v dict \<Rightarrow> key \<Rightarrow> error + 'v" where
  "getitem d k = (case map_of d k of None \<Rightarrow> Inl (KeyError k) | Some v \<Rightarrow> Inr v)"

text \<open>\<open>d[key]\<close> on a \<open>defaultdict\<close> yields the default for a missing key.\<close>

definition dd_get :: "'v dict \<Rightarrow> 'v \<Rightarrow> key \<Rightarrow> 'v" where
  "dd_get d dflt k = (case map_of d k of None \<Rightarrow> dflt | Some v \<Rightarrow> v)"

section \<open>The projection step \<open>w_project\<close>\<close>

text \<open>
  The inner loop of \<open>w_project\<close> over the keys of one worker's \<open>y_half\<close>:
  \<open>ys_diff[key].append(y_half[key] - s_half[key]); var_cnt[key] += 1.0\<close>.
  \<open>s_half\<close> is a plain dict, so a key it does not hold raises \<open>KeyError\<close>.
\<close>

fun store_diffs ::
  "('a::real_normed_vector) dict \<Rightarrow> 'a dict \<Rightarrow> 'a list dict \<times> real dict
    \<Rightarrow> error + ('a list dict \<times> real dict)" where
  "store_diffs [] s_half acc = Inr acc"
| "store_diffs ((k, yv) # rest) s_half (ys_diff, var_cnt) =
     (case getitem s_half k of
        Inl e \<Rightarrow> Inl e
      | Inr sv \<Rightarrow>
          store_diffs rest s_half
            (AList.update k (dd_get ys_diff [] k @ [yv - sv]) ys_diff,
             AList.update k (dd_get var_cnt 0 k + 1) var_cnt))"

text \<open>The outer loop \<open>for status, y_half in prox_res\<close>.\<close>

fun gather ::
  "(status \<times> ('a::real_normed_vector) dict) list \<Rightarrow> 'a dict \<Rightarrow> 'a list dict \<times> real dict
    \<Rightarrow> error + ('a list dict \<times> real dict)" where
  "gather [] s_half acc = Inr acc"
| "gather ((st, y_half) # rest) s_half acc =
     (if st \<in> set INF_OR_UNB then Inl RuntimeError_infeasible
      else (case store_diffs y_half s_half acc of
              Inl e \<Rightarrow> Inl e
            | Inr acc' \<Rightarrow> gather rest s_half acc'))"

text \<open>
  The body of the last loop of \<open>w_project\<close>, for one key of \<open>s_half\<close>: the values
  stored under that key in \<open>mat_term\<close> and in \<open>z_new\<close>.
\<close>

definition project_key ::
  "('a::real_normed_vector) list dict \<Rightarrow> real dict \<Rightarrow> key \<Rightarrow> 'a \<Rightarrow> 'a \<times> 'a" where
  "project_key ys_diff var_cnt k sv =
     (let ys_sum = sum_list (dd_get ys_diff [] k);
          mt = ys_sum /\<^sub>R (1 + dd_get var_cnt 0 k)
      in (mt, sv + ys_sum - dd_get var_cnt 0 k *\<^sub>R mt))"

definition w_project ::
  "(status \<times> ('a::real_normed_vector) dict) list \<Rightarrow> 'a dict \<Rightarrow> error + ('a dict \<times> 'a dict)" where
  "w_project prox_res s_half =
     (case gather prox_res s_half ([], []) of
        Inl e \<Rightarrow> Inl e
      | Inr (ys_diff, var_cnt) \<Rightarrow>
          if set (map fst s_half) \<noteq> set (map fst ys_diff) then Inl RuntimeError_mismatch
          else Inr (map (\<lambda>(k, sv). (k, fst (project_key ys_diff var_cnt k sv))) s_half,
                    map (\<lambda>(k, sv). (k, snd (project_key ys_diff var_cnt k sv))) s_half))"

text \<open>
  The list \<open>diffs\<close> of the specification: \<open>y_half_i[key] - s_half[key]\<close> over the
  workers, in order, that hold the key.
\<close>

definition diffs_of ::
  "(status \<times> ('a::real_normed_vector) dict) list \<Rightarrow> key \<Rightarrow> 'a \<Rightarrow> 'a list" where
  "diffs_of prox_res k sv =
     concat (map (\<lambda>(st, y_half). map (\<lambda>(k', yv). yv - sv) (filter (\<lambda>(k', yv). k' = k) y_half))
               prox_res)"


section \<open>The worker loop \<open>run_worker\<close>\<close>

text \<open>
  \<open>vmap[xid]\<close> of \<open>prox_step\<close> holds the variable \<open>x\<close> and the parameters \<open>z\<close>
  and \<open>y\<close>; the fields below are their \<open>.value\<close>. The step size \<open>rho\<close> is read by
  the local solve only and is part of it. The value of \<open>x\<close> is unset until the first
  solve assigns it and is not read before; it starts as \<open>0\<close> here.
\<close>

record 'a var_entry =
  x_val :: 'a
  z_val :: 'a
  y_val :: 'a

text \<open>
  A problem of \<open>p_list\<close>: the ids of \<open>prob.variables()\<close>, and the local proximal
  solve \<open>prox.solve(*args, **kwargs)\<close>, an external collaborator: from the current
  parameter values it yields the status and the value of every variable. It is a total
  function: every local solve returns.
\<close>

record 'a problem =
  variables :: "key list"
  solve :: "'a var_entry dict \<Rightarrow> status \<times> (key \<Rightarrow> 'a)"

definition prox_step :: "('a::real_normed_vector) problem \<Rightarrow> 'a var_entry dict" where
  "prox_step p =
     foldl (\<lambda>vmap xid. AList.update xid \<lparr>x_val = 0, z_val = 0, y_val = 0\<rparr> vmap) [] (variables p)"

record 'a worker =
  prox :: "'a var_entry dict \<Rightarrow> status \<times> (key \<Rightarrow> 'a)"
  vmap :: "'a var_entry dict"
  y_diff :: "'a dict list"

text \<open>
  First part of a round of the worker: the proximal step, \<open>x_half\<close>, \<open>y_half\<close>,
  and the message \<open>(prox.status, y_half)\<close>. The worker keeps \<open>x_half\<close>.

  After a solve that reports infeasible or unbounded, cvxpy leaves the value of every
  variable \<open>None\<close>: \<open>2*x_half[key]\<close> then raises \<open>TypeError\<close> at the first key, and
  the worker exits before it sends anything. A worker without variables has nothing to
  multiply and sends the status with an empty \<open>y_half\<close>.
\<close>

definition worker_half ::
  "('a::real_normed_vector) worker
    \<Rightarrow> error + ((status \<times> 'a dict) \<times> ('a dict \<times> 'a worker))" where
  "worker_half w =
     (let (st, xs) = prox w (vmap w) in
      if st \<in> set INF_OR_UNB \<and> vmap w \<noteq> [] then Inl TypeError
      else
       (let v = map (\<lambda>(k, e). (k, e\<lparr>x_val := xs k\<rparr>)) (vmap w);
            x_half = map (\<lambda>(k, e). (k, x_val e)) v;
            y_half = map (\<lambda>(k, e). (k, 2 *\<^sub>R x_val e - y_val e)) v
        in Inr ((st, y_half), (x_half, w\<lparr>vmap := v\<rparr>))))"

text \<open>The same for a process of the list of workers: one that has exited stays so.\<close>

definition run_half ::
  "error + ('a::real_normed_vector) worker
    \<Rightarrow> error + ((status \<times> 'a dict) \<times> ('a dict \<times> 'a worker))" where
  "run_half ew = (case ew of Inl e \<Rightarrow> Inl e | Inr w \<Rightarrow> worker_half w)"

text \<open>\<open>np.concatenate\<close> of an empty list of arrays raises \<open>ValueError\<close>.\<close>

definition concatenate :: "'b list \<Rightarrow> error + 'b list" where
  "concatenate bs = (if bs = [] then Inl ValueError_concatenate else Inr bs)"

text \<open>
  The loop \<open>for key in v.keys()\<close> of the branch without acceleration: the new entries
  and the list \<open>y_res\<close>.
\<close>

fun update_w_plain ::
  "('a::real_normed_vector) var_entry dict \<Rightarrow> 'a dict \<Rightarrow> 'a dict \<Rightarrow> 'a dict
    \<Rightarrow> error + ('a var_entry dict \<times> 'a list)" where
  "update_w_plain [] mat_term z_new x_half = Inr ([], [])"
| "update_w_plain ((k, e) # rest) mat_term z_new x_half =
     (case getitem mat_term k of Inl err \<Rightarrow> Inl err | Inr mt \<Rightarrow>
     (case getitem z_new k of Inl err \<Rightarrow> Inl err | Inr zn \<Rightarrow>
     (case getitem x_half k of Inl err \<Rightarrow> Inl err | Inr xh \<Rightarrow>
     (case update_w_plain rest mat_term z_new x_half of Inl err \<Rightarrow> Inl err
      | Inr (v', y_res) \<Rightarrow>
          (let x_new = z_val e + mt
           in Inr ((k, e\<lparr>x_val := x_new, z_val := zn, y_val := y_val e + (x_new - xh)\<rparr>) # v',
                   (xh - x_new) # y_res))))))"

definition worker_plain ::
  "('a::real_normed_vector) dict \<Rightarrow> 'a dict \<Rightarrow> 'a dict \<times> 'a worker
    \<Rightarrow> error + ('a list \<times> 'a worker)" where
  "worker_plain mat_term z_new hw =
     (case hw of (x_half, w) \<Rightarrow>
       (case update_w_plain (vmap w) mat_term z_new x_half of Inl err \<Rightarrow> Inl err
        | Inr (v', y_res0) \<Rightarrow>
       (case concatenate y_res0 of Inl err \<Rightarrow> Inl err
        | Inr y_res \<Rightarrow> Inr (y_res, w\<lparr>vmap := v'\<rparr>))))"

text \<open>
  The loop \<open>for key in v.keys()\<close> of the accelerated branch: the new entries, the
  dict \<open>diff\<close> and the list \<open>y_res\<close>.
\<close>

fun update_w_accel ::
  "('a::real_normed_vector) var_entry dict \<Rightarrow> 'a dict \<Rightarrow> 'a dict \<Rightarrow> 'a dict
    \<Rightarrow> error + ('a var_entry dict \<times> 'a dict \<times> 'a list)" where
  "update_w_accel [] mat_term z_new x_half = Inr ([], [], [])"
| "update_w_accel ((k, e) # rest) mat_term z_new x_half =
     (case getitem mat_term k of Inl err \<Rightarrow> Inl err | Inr mt \<Rightarrow>
     (case getitem z_new k of Inl err \<Rightarrow> Inl err | Inr zn \<Rightarrow>
     (case getitem x_half k of Inl err \<Rightarrow> Inl err | Inr xh \<Rightarrow>
     (case update_w_accel rest mat_term z_new x_half of Inl err \<Rightarrow> Inl err
      | Inr (v', diff, y_res) \<Rightarrow>
          (let x_new = z_val e + mt
           in Inr ((k, e\<lparr>x_val := x_new, z_val := zn\<rparr>) # v',
                   (k, xh - x_new) # diff,
                   (xh - x_new) # y_res))))))"

text \<open>\<open>hist.append(diff); if len(hist) > m_k + 1: hist.pop(0)\<close>\<close>

definition push_hist :: "int \<Rightarrow> 'd list \<Rightarrow> 'd \<Rightarrow> 'd list" where
  "push_hist m_k hist d =
     (let h = hist @ [d] in if int (length h) > m_k + 1 then tl h else h)"

definition worker_accel ::
  "int \<Rightarrow> nat \<Rightarrow> ('a::real_normed_vector) dict \<Rightarrow> 'a dict \<Rightarrow> 'a dict \<times> 'a worker
    \<Rightarrow> error + (('a dict list \<times> 'a list) \<times> 'a worker)" where
  "worker_accel m_acc k mat_term z_new hw =
     (case hw of (x_half, w) \<Rightarrow>
       (let m_k = min m_acc (int k) in
       (case update_w_accel (vmap w) mat_term z_new x_half of Inl err \<Rightarrow> Inl err
        | Inr (v', diff, y_res0) \<Rightarrow>
       (case concatenate y_res0 of Inl err \<Rightarrow> Inl err
        | Inr y_res \<Rightarrow>
           (let h = push_hist m_k (y_diff w) diff
            in Inr ((h, y_res), w\<lparr>vmap := v', y_diff := h\<rparr>))))))"

text \<open>
  The weighted update, written twice in the source (for \<open>y\<close> in the worker, for \<open>s\<close>
  in the coordinator): \<open>val = np.zeros(hist[0][key].shape)\<close>, then
  \<open>for j in range(m_k + 1): val += alpha[j] * hist[j][key]\<close>.
\<close>

fun weighted ::
  "real list \<Rightarrow> ('a::real_normed_vector) dict list \<Rightarrow> key \<Rightarrow> nat list \<Rightarrow> 'a \<Rightarrow> error + 'a" where
  "weighted alpha hist k [] acc = Inr acc"
| "weighted alpha hist k (j # js) acc =
     (if length alpha \<le> j then Inl IndexError
      else if length hist \<le> j then Inl IndexError
      else (case getitem (hist ! j) k of Inl err \<Rightarrow> Inl err
            | Inr d \<Rightarrow> weighted alpha hist k js (acc + (alpha ! j) *\<^sub>R d)))"

definition weighted_update ::
  "real list \<Rightarrow> ('a::real_normed_vector) dict list \<Rightarrow> int \<Rightarrow> key \<Rightarrow> error + 'a" where
  "weighted_update alpha hist m_k k =
     (case hist of [] \<Rightarrow> Inl IndexError
      | h0 # _ \<Rightarrow>
         (case getitem h0 k of Inl err \<Rightarrow> Inl err
          | Inr _ \<Rightarrow> weighted alpha hist k [0..<nat (m_k + 1)] 0))"

fun update_y ::
  "real list \<Rightarrow> ('a::real_normed_vector) dict list \<Rightarrow> int \<Rightarrow> 'a var_entry dict
    \<Rightarrow> error + 'a var_entry dict" where
  "update_y alpha hist m_k [] = Inr []"
| "update_y alpha hist m_k ((k, e) # rest) =
     (case weighted_update alpha hist m_k k of Inl err \<Rightarrow> Inl err | Inr yv \<Rightarrow>
     (case update_y alpha hist m_k rest of Inl err \<Rightarrow> Inl err
      | Inr v' \<Rightarrow> Inr ((k, e\<lparr>y_val := yv\<rparr>) # v')))"

text \<open>Last part of an accelerated round of the worker, after it has received \<open>alpha\<close>.\<close>

definition worker_mix ::
  "int \<Rightarrow> nat \<Rightarrow> real list \<Rightarrow> ('a::real_normed_vector) worker \<Rightarrow> error + 'a worker" where
  "worker_mix m_acc k alpha w =
     (case update_y alpha (y_diff w) (min m_acc (int k)) (vmap w) of Inl err \<Rightarrow> Inl err
      | Inr v' \<Rightarrow> Inr (w\<lparr>vmap := v'\<rparr>))"


section \<open>The coordinator \<open>consensus\<close>\<close>

text \<open>
  The keyword arguments of \<open>consensus\<close>. The function \<open>aa_weights\<close> is imported from
  \<open>cvxconsensus.acceleration\<close>, which does not define it; it is a parameter of the
  model. The step sizes (\<open>rho_init\<close>, \<open>assign_rho\<close>) enter the local solves only.
\<close>

record 'a config =
  p_list :: "'a problem list"
  max_iter :: int
  eps_stop :: real
  anderson :: bool
  m_accel :: int
  aa_weights :: "'a dict list list \<Rightarrow> real list"

text \<open>
  The state of the loop: the coordinator's \<open>z\<close>, \<open>s\<close> (a \<open>defaultdict(float)\<close>),
  \<open>resid\<close> and \<open>s_diff\<close>, and the workers. Workers are separate processes that share
  nothing with the coordinator and meet it at every \<open>send\<close> and \<open>recv\<close>, so a round
  is a function of this joint state. A worker that has raised is kept as \<open>Inl\<close> of its
  exception: its process has exited.
\<close>

record 'a loop_state =
  z_of :: "'a dict"
  s_of :: "'a dict"
  resid_of :: "real list"
  s_diff_of :: "'a dict list"
  workers_of :: "(error + 'a worker) list"

text \<open>
  \<open>[pipe.recv() for pipe in pipes]\<close>. A worker that has exited sends nothing: the
  receive gives the coordinator no message, and the run yields no result.
\<close>

fun recv_all :: "(error + 'm) list \<Rightarrow> error + 'm list" where
  "recv_all [] = Inr []"
| "recv_all (Inl e # ms) = Inl (WorkerDied e)"
| "recv_all (Inr m # ms) =
     (case recv_all ms of Inl e \<Rightarrow> Inl e | Inr rest \<Rightarrow> Inr (m # rest))"

text \<open>
  \<open>var_all = {var.id: var for prob in p_list for var in prob.variables()}\<close>: its keys,
  in insertion order.
\<close>

definition var_all :: "'a problem list \<Rightarrow> key list" where
  "var_all ps = map fst (foldl (\<lambda>d xid. AList.update xid () d) [] (concat (map variables ps)))"

text \<open>
  The residual vector is kept as the list of its blocks (the flattened arrays that
  \<open>np.concatenate\<close> joins); \<open>np.linalg.norm(v_res, ord = 2)\<close> is then:
\<close>

definition l2_norm :: "('a::real_normed_vector) list \<Rightarrow> real" where
  "l2_norm bs = sqrt (\<Sum>b\<leftarrow>bs. (norm b)\<^sup>2)"

text \<open>\<open>resid[k] = r\<close> on an array: \<open>IndexError\<close> out of range.\<close>

definition setitem :: "'b list \<Rightarrow> nat \<Rightarrow> 'b \<Rightarrow> error + 'b list" where
  "setitem xs i r = (if i < length xs then Inr (xs[i := r]) else Inl IndexError)"

text \<open>
  Without acceleration, the loop \<open>for key in var_all.keys()\<close>:
  \<open>s[key] += z_new[key] - z[key]\<close> and \<open>s_res.append(z[key] - z_new[key])\<close>.
\<close>

fun update_s ::
  "key list \<Rightarrow> ('a::real_normed_vector) dict \<Rightarrow> 'a dict \<Rightarrow> 'a dict \<times> 'a list
    \<Rightarrow> error + ('a dict \<times> 'a list)" where
  "update_s [] z z_new acc = Inr acc"
| "update_s (k # ks) z z_new (s, s_res) =
     (case getitem z_new k of Inl err \<Rightarrow> Inl err | Inr zn \<Rightarrow>
     (case getitem z k of Inl err \<Rightarrow> Inl err | Inr zv \<Rightarrow>
        update_s ks z z_new (AList.update k (dd_get s 0 k + (zn - zv)) s, s_res @ [zv - zn])))"

text \<open>
  With acceleration, the loop \<open>for key in var_all.keys()\<close>:
  \<open>diff[key] = z[key] - z_new[key]\<close> and \<open>s_res.append(diff[key])\<close>.
\<close>

fun diff_z ::
  "key list \<Rightarrow> ('a::real_normed_vector) dict \<Rightarrow> 'a dict \<Rightarrow> 'a dict \<times> 'a list
    \<Rightarrow> error + ('a dict \<times> 'a list)" where
  "diff_z [] z z_new acc = Inr acc"
| "diff_z (k # ks) z z_new (diff, s_res) =
     (case getitem z k of Inl err \<Rightarrow> Inl err | Inr zv \<Rightarrow>
     (case getitem z_new k of Inl err \<Rightarrow> Inl err | Inr zn \<Rightarrow>
        diff_z ks z z_new (AList.update k (zv - zn) diff, s_res @ [zv - zn])))"

text \<open>The weighted update of \<open>s\<close>, for every key of \<open>var_all\<close>.\<close>

fun update_s_accel ::
  "real list \<Rightarrow> ('a::real_normed_vector) dict list \<Rightarrow> int \<Rightarrow> key list \<Rightarrow> 'a dict
    \<Rightarrow> error + 'a dict" where
  "update_s_accel alpha hist m_k [] s = Inr s"
| "update_s_accel alpha hist m_k (k # ks) s =
     (case weighted_update alpha hist m_k k of Inl err \<Rightarrow> Inl err
      | Inr sv \<Rightarrow> update_s_accel alpha hist m_k ks (AList.update k sv s))"

text \<open>The rest of a round after the projection, without acceleration.\<close>

definition plain_round ::
  "('a::real_normed_vector) config \<Rightarrow> nat \<Rightarrow> 'a loop_state \<Rightarrow> ('a dict \<times> 'a worker) list
    \<Rightarrow> 'a dict \<Rightarrow> 'a dict \<Rightarrow> error + 'a loop_state" where
  "plain_round c k st halves mat_term z_new =
     (case update_s (var_all (p_list c)) (z_of st) z_new (s_of st, []) of Inl err \<Rightarrow> Inl err
      | Inr (s', s_res0) \<Rightarrow>
     (case concatenate s_res0 of Inl err \<Rightarrow> Inl err
      | Inr s_res \<Rightarrow>
     (case recv_all (map (worker_plain mat_term z_new) halves) of Inl err \<Rightarrow> Inl err
      | Inr replies \<Rightarrow>
     (case setitem (resid_of st) k (l2_norm (concat (map fst replies) @ s_res)) of
        Inl err \<Rightarrow> Inl err
      | Inr resid' \<Rightarrow>
          Inr (st\<lparr>z_of := z_new, s_of := s', resid_of := resid',
                  workers_of := map (\<lambda>r. Inr (snd r)) replies\<rparr>)))))"

text \<open>
  The rest of a round after the projection, with acceleration.
  \<open>y_diffs, v_res = map(list, zip(*y_hist))\<close> fails to unpack when there is no worker.
\<close>

definition accel_round ::
  "('a::real_normed_vector) config \<Rightarrow> nat \<Rightarrow> 'a loop_state \<Rightarrow> ('a dict \<times> 'a worker) list
    \<Rightarrow> 'a dict \<Rightarrow> 'a dict \<Rightarrow> error + 'a loop_state" where
  "accel_round c k st halves mat_term z_new =
     (case recv_all (map (worker_accel (m_accel c) k mat_term z_new) halves) of
        Inl err \<Rightarrow> Inl err
      | Inr y_hist \<Rightarrow>
          if y_hist = [] then Inl ValueError_unpack
          else
     (case diff_z (var_all (p_list c)) (z_of st) z_new ([], []) of Inl err \<Rightarrow> Inl err
      | Inr (diff, s_res0) \<Rightarrow>
     (case concatenate s_res0 of Inl err \<Rightarrow> Inl err
      | Inr s_res \<Rightarrow>
     (case setitem (resid_of st) k (l2_norm (concat (map (\<lambda>r. snd (fst r)) y_hist) @ s_res)) of
        Inl err \<Rightarrow> Inl err
      | Inr resid' \<Rightarrow>
          (let m_k = min (m_accel c) (int k);
               s_diff = push_hist m_k (s_diff_of st) diff;
               alpha = aa_weights c (map (\<lambda>r. fst (fst r)) y_hist @ [s_diff])
           in (case update_s_accel alpha s_diff m_k (var_all (p_list c)) (s_of st) of
                 Inl err \<Rightarrow> Inl err
               | Inr s' \<Rightarrow>
                   Inr \<lparr>z_of = z_new, s_of = s', resid_of = resid', s_diff_of = s_diff,
                        workers_of =
                          map (\<lambda>r. worker_mix (m_accel c) k alpha (snd r)) y_hist\<rparr>))))))"

text \<open>
  One pass through the body of \<open>while not finished\<close>, up to the assignment
  \<open>z = z_new\<close>: gather the half steps, project with \<open>w_project(prox_res, z)\<close>,
  scatter, and update.
\<close>

definition consensus_round ::
  "('a::real_normed_vector) config \<Rightarrow> nat \<Rightarrow> 'a loop_state \<Rightarrow> error + 'a loop_state" where
  "consensus_round c k st =
     (case recv_all (map run_half (workers_of st)) of Inl err \<Rightarrow> Inl err
      | Inr halves \<Rightarrow>
     (case w_project (map fst halves) (z_of st) of Inl err \<Rightarrow> Inl err
      | Inr (mat_term, z_new) \<Rightarrow>
          if anderson c then accel_round c k st (map snd halves) mat_term z_new
          else plain_round c k st (map snd halves) mat_term z_new))"

text \<open>
  The loop. After a round, \<open>k = k + 1\<close> and
  \<open>finished = k >= max_iter or resid[k-1] <= eps_stop*resid[0]\<close>; the result is the
  final \<open>k\<close> and state.
\<close>

function consensus_loop ::
  "('a::real_normed_vector) config \<Rightarrow> nat \<Rightarrow> 'a loop_state \<Rightarrow> error + (nat \<times> 'a loop_state)" where
  "consensus_loop c k st =
     (case consensus_round c k st of Inl err \<Rightarrow> Inl err
      | Inr st' \<Rightarrow>
          if max_iter c \<le> int (k + 1) \<or> resid_of st' ! k \<le> eps_stop c * resid_of st' ! 0
          then Inr (k + 1, st')
          else consensus_loop c (k + 1) st')"
  by pat_completeness auto
termination
  by (relation "measure (\<lambda>(c, k, st). nat (max_iter c - int k))") auto

text \<open>
  What \<open>consensus\<close> has done to the worker processes when it leaves: how many it has
  started, and whether it has reached \<open>[p.terminate() for p in procs]\<close>.
\<close>

record procs =
  started :: nat
  terminated :: bool

text \<open>The returned dict, without the wall-clock \<open>solve_time\<close>.\<close>

record 'a result =
  zvals :: "'a dict"
  residuals :: "real list"
  num_iters :: nat

definition init_state :: "('a::real_normed_vector) config \<Rightarrow> 'a loop_state" where
  "init_state c =
     \<lparr>z_of = map (\<lambda>k. (k, 0)) (var_all (p_list c)),
      s_of = [],
      resid_of = replicate (nat (max_iter c)) 0,
      s_diff_of = [],
      workers_of = map (\<lambda>p. Inr \<lparr>prox = solve p, vmap = prox_step p, y_diff = []\<rparr>) (p_list c)\<rparr>"

text \<open>
  The entry point. \<open>np.zeros(max_iter)\<close> raises \<open>ValueError\<close> for a negative
  \<open>max_iter\<close>, after the workers have been started.
\<close>

definition consensus :: "('a::real_normed_vector) config \<Rightarrow> (error + 'a result) \<times> procs" where
  "consensus c =
     (if m_accel c < 0 then (Inl ValueError_m_accel, \<lparr>started = 0, terminated = False\<rparr>)
      else (let N = length (p_list c) in
        if max_iter c < 0
        then (Inl ValueError_negative_dimensions, \<lparr>started = N, terminated = False\<rparr>)
        else (case consensus_loop c 0 (init_state c) of
                Inl err \<Rightarrow> (Inl err, \<lparr>started = N, terminated = False\<rparr>)
              | Inr (k, st) \<Rightarrow>
                  (Inr \<lparr>zvals = z_of st, residuals = take k (resid_of st), num_iters = k\<rparr>,
                   \<lparr>started = N, terminated = True\<rparr>))))"


section \<open>Runs\<close>

text \<open>
  \<open>rounds c n\<close> is the state of the loop after \<open>n\<close> rounds, were it to run that
  long: the states the loop goes through are among these.
\<close>

fun rounds :: "('a::real_normed_vector) config \<Rightarrow> nat \<Rightarrow> error + 'a loop_state" where
  "rounds c 0 = Inr (init_state c)"
| "rounds c (Suc n) =
     (case rounds c n of Inl err \<Rightarrow> Inl err | Inr st \<Rightarrow> consensus_round c n st)"

text \<open>The list \<open>prox_res\<close> that the coordinator gathers at the start of a round.\<close>

definition prox_res_of ::
  "('a::real_normed_vector) loop_state \<Rightarrow> error + (status \<times> 'a dict) list" where
  "prox_res_of st = map_sum id (map fst) (recv_all (map run_half (workers_of st)))"

text \<open>The dual values \<open>y\<close> held by the workers.\<close>

definition duals_of :: "'a loop_state \<Rightarrow> (error + 'a dict) list" where
  "duals_of st = map (map_sum id (\<lambda>w. map (\<lambda>(k, e). (k, y_val e)) (vmap w))) (workers_of st)"

text \<open>
  Concrete inputs, with scalar variables: a problem whose local solve returns the same
  status and the same value for every variable each time; a mixer that weighs the
  entries of the window equally; and two nodes that share variable 0.
\<close>

definition const_problem :: "key list \<Rightarrow> status \<Rightarrow> real \<Rightarrow> real problem" where
  "const_problem ks st r = \<lparr>variables = ks, solve = (\<lambda>v. (st, (\<lambda>k. r)))\<rparr>"

definition uniform_weights :: "real dict list list \<Rightarrow> real list" where
  "uniform_weights ws = replicate (length (last ws)) (1 / real (length (last ws)))"

definition run_cfg :: "real problem list \<Rightarrow> bool \<Rightarrow> int \<Rightarrow> int \<Rightarrow> real config" where
  "run_cfg ps acc m mi =
     \<lparr>p_list = ps, max_iter = mi, eps_stop = 1/2, anderson = acc, m_accel = m,
      aa_weights = uniform_weights\<rparr>"

definition two_nodes :: "real problem list" where
  "two_nodes = [const_problem [0] OPTIMAL 1, const_problem [0] OPTIMAL 3]"

text \<open>A second node without variables whose constraints cannot hold.\<close>

definition infeasible_node :: "real problem list" where
  "infeasible_node = [const_problem [0] OPTIMAL 1, const_problem [] INFEASIBLE 0]"


text \<open>The history windows held in a state: the coordinator's and each worker's.\<close>

definition windows_of :: "'a loop_state \<Rightarrow> 'a dict list \<times> (error + 'a dict list) list" where
  "windows_of st = (s_diff_of st, map (map_sum id y_diff) (workers_of st))"

section \<open>Invariants of the loop\<close>

text \<open>
  The number of entries of every history window at the start of round \<open>k\<close>: none
  without acceleration or before round 0, else the \<open>min(m_accel, k - 1) + 1\<close> left by
  round \<open>k - 1\<close>.
\<close>

definition hist_len :: "'a config \<Rightarrow> nat \<Rightarrow> nat" where
  "hist_len c k = (if anderson c \<and> 0 < k then nat (min (m_accel c) (int k - 1)) + 1 else 0)"

text \<open>
  A worker of problem \<open>p\<close> is well formed: its process is alive, it solves \<open>p\<close>, its
  entries and every entry of its window are keyed by the variables of \<open>p\<close>, and its
  window has \<open>n\<close> entries.
\<close>

definition worker_ok ::
  "('a::real_normed_vector) problem \<Rightarrow> nat \<Rightarrow> error + 'a worker \<Rightarrow> bool" where
  "worker_ok p n ew =
     (case ew of Inl e \<Rightarrow> False
      | Inr w \<Rightarrow> prox w = solve p \<and> map fst (vmap w) = map fst (prox_step p)
                 \<and> length (y_diff w) = n
                 \<and> (\<forall>d\<in>set (y_diff w). map fst d = map fst (prox_step p)))"

definition state_ok ::
  "('a::real_normed_vector) config \<Rightarrow> nat \<Rightarrow> 'a loop_state \<Rightarrow> bool" where
  "state_ok c k st =
     (map fst (z_of st) = var_all (p_list c)
      \<and> length (s_diff_of st) = hist_len c k
      \<and> (\<forall>d\<in>set (s_diff_of st). set (var_all (p_list c)) \<subseteq> fst ` set d)
      \<and> list_all2 (\<lambda>p ew. worker_ok p (hist_len c k) ew) (p_list c) (workers_of st))"

text \<open>
  There is at least one problem, and every problem has a variable
  (\<open>np.concatenate\<close> needs an array).
\<close>

definition nodes_ok :: "'a config \<Rightarrow> bool" where
  "nodes_ok c = (p_list c \<noteq> [] \<and> list_all (\<lambda>p. variables p \<noteq> []) (p_list c))"

text \<open>No local solve that starts from this state reports a status of \<open>INF_OR_UNB\<close>.\<close>

definition statuses_ok :: "('a::real_normed_vector) loop_state \<Rightarrow> bool" where
  "statuses_ok st =
     (\<forall>w. Inr w \<in> set (workers_of st) \<longrightarrow> fst (prox w (vmap w)) \<notin> set INF_OR_UNB)"

text \<open>
  The loop executes a round \<open>k\<close>: always round 0, and round \<open>k + 1\<close> when it has
  executed round \<open>k\<close>, the round has raised nothing and the test after it has not
  stopped the loop.
\<close>

fun running :: "('a::real_normed_vector) config \<Rightarrow> nat \<Rightarrow> bool" where
  "running c 0 = True"
| "running c (Suc k) =
     (running c k \<and>
      (case rounds c (Suc k) of Inl err \<Rightarrow> False
       | Inr st \<Rightarrow>
           \<not> (max_iter c \<le> int (Suc k) \<or> resid_of st ! k \<le> eps_stop c * resid_of st ! 0)))"

text \<open>
  Every local solve of the run returns a status other than infeasible or unbounded: the
  solves of round \<open>k\<close> are those of the workers in the state after \<open>k\<close> rounds, for
  every round that the loop executes.
\<close>

definition solves_ok :: "('a::real_normed_vector) config \<Rightarrow> bool" where
  "solves_ok c = (\<forall>k st. running c k \<and> rounds c k = Inr st \<longrightarrow> statuses_ok st)"

text \<open>
  The mixer returns at least one weight per window entry, whenever the windows it is
  given all have the length of the last one (the coordinator's).
\<close>

definition mixer_ok :: "('a::real_normed_vector) config \<Rightarrow> bool" where
  "mixer_ok c =
     (\<forall>ws. ws \<noteq> [] \<and> list_all (\<lambda>w. length w = length (last ws)) ws
            \<longrightarrow> length (last ws) \<le> length (aa_weights c ws))"


section \<open>The mixer\<close>

text \<open>
  Modelled from the spec: the function \<open>aa_weights\<close> that \<open>consensus\<close> imports from
  \<open>cvxconsensus.acceleration\<close> is missing from that file (its \<open>dual_weights\<close> builds
  the same problem for a matrix of residual columns: a variable \<open>w\<close> with one entry per
  column, the objective \<open>sum_squares(primals*w)\<close>, the constraints \<open>sum(w) == 1\<close> and
  \<open>w >= 0\<close>). By sections 4.3 and 6 of the spec, the mixer is given a window of
  residual snapshots, each a mapping from key to tensor, and returns weights \<open>alpha\<close>
  that minimise the squared norm of \<open>\<Sum>j. alpha[j] * R[j]\<close> subject to
  \<open>\<Sum>j. alpha[j] = 1\<close>, and to \<open>alpha[j] >= 0\<close> when so configured; \<open>R[j]\<close> is the
  flattened concatenation of the entries of the \<open>j\<close>-th snapshot in a fixed key order.
  The solve is exact, as all arithmetic here.
\<close>

text \<open>\<open>\<Sum>j. alpha[j] * R[j]\<close>, as the list of its blocks.\<close>

fun mixture :: "(real \<times> ('a::real_normed_vector) dict) list \<Rightarrow> 'a list" where
  "mixture [] = []"
| "mixture [(a, r)] = map (\<lambda>(k, v). a *\<^sub>R v) r"
| "mixture ((a, r) # rest) = map2 (+) (map (\<lambda>(k, v). a *\<^sub>R v) r) (mixture rest)"

definition objective :: "('a::real_normed_vector) dict list \<Rightarrow> real list \<Rightarrow> real" where
  "objective window alpha = (l2_norm (mixture (zip alpha window)))\<^sup>2"

definition feasible :: "bool \<Rightarrow> 'a dict list \<Rightarrow> real list \<Rightarrow> bool" where
  "feasible nonneg window alpha =
     (length alpha = length window \<and> sum_list alpha = 1
      \<and> (if nonneg then list_all (\<lambda>a. 0 \<le> a) alpha else True))"

text \<open>\<open>alpha\<close> is a vector of weights that the mixer may return for the window.\<close>

definition is_aa_weights ::
  "bool \<Rightarrow> ('a::real_normed_vector) dict list \<Rightarrow> real list \<Rightarrow> bool" where
  "is_aa_weights nonneg window alpha =
     (feasible nonneg window alpha
      \<and> (\<forall>beta. feasible nonneg window beta \<longrightarrow> objective window alpha \<le> objective window beta))"


section \<open>Properties of the projection step\<close>

lemma dd_get_update:
  "dd_get (AList.update k' v d) dflt k = (if k = k' then v else dd_get d dflt k)"
  by (simp add: dd_get_def update_conv')

lemma store_diffs_acc:
  "store_diffs y_half s_half (yd, vc) = Inr (yd', vc') \<Longrightarrow> map_of s_half k = Some sv \<Longrightarrow>
     dd_get yd' [] k = dd_get yd [] k @ map (\<lambda>(k', yv). yv - sv) (filter (\<lambda>(k', yv). k' = k) y_half)
   \<and> dd_get vc' 0 k = dd_get vc 0 k + real (length (filter (\<lambda>(k', yv). k' = k) y_half))"
proof (induction y_half arbitrary: yd vc)
  case Nil
  then show ?case by simp
next
  case (Cons p rest)
  obtain k0 yv where p: "p = (k0, yv)" by (cases p)
  from Cons.prems(1) p obtain sv0 where
    g: "getitem s_half k0 = Inr sv0" and
    r: "store_diffs rest s_half
          (AList.update k0 (dd_get yd [] k0 @ [yv - sv0]) yd,
           AList.update k0 (dd_get vc 0 k0 + 1) vc) = Inr (yd', vc')"
    by (auto split: sum.splits)
  from g have m: "map_of s_half k0 = Some sv0"
    by (auto simp: getitem_def split: option.splits)
  from Cons.IH [OF r Cons.prems(2)] m Cons.prems(2) show ?case
    by (auto simp: p dd_get_update)
qed

lemma gather_acc:
  "gather prox_res s_half (yd, vc) = Inr (yd', vc') \<Longrightarrow> map_of s_half k = Some sv \<Longrightarrow>
     dd_get yd' [] k = dd_get yd [] k @ diffs_of prox_res k sv
   \<and> dd_get vc' 0 k = dd_get vc 0 k + real (length (diffs_of prox_res k sv))"
proof (induction prox_res arbitrary: yd vc)
  case Nil
  then show ?case by (simp add: diffs_of_def)
next
  case (Cons p rest)
  obtain st y_half where p: "p = (st, y_half)" by (cases p)
  from Cons.prems(1) p obtain yd1 vc1 where
    s: "store_diffs y_half s_half (yd, vc) = Inr (yd1, vc1)" and
    r: "gather rest s_half (yd1, vc1) = Inr (yd', vc')"
    by (auto split: sum.splits if_splits)
  from store_diffs_acc [OF s Cons.prems(2)] Cons.IH [OF r Cons.prems(2)] show ?case
    by (simp add: p diffs_of_def)
qed

lemma map_of_map_entry:
  "map_of d k = Some v \<Longrightarrow> map_of (map (\<lambda>(k, v). (k, f k v)) d) k = Some (f k v)"
  by (induction d) (auto split: if_splits)

text \<open>
  Claim C1. Whenever the projection step returns, then for every key of \<open>s_half\<close>, with
  \<open>diffs\<close> the list of \<open>y_half_i[key] - s_half[key]\<close> over the workers holding the key
  and \<open>n\<close> its length, \<open>mat_term[key]\<close> is the sum of \<open>diffs\<close> divided by \<open>1 + n\<close> and
  \<open>z_new[key]\<close> is \<open>s_half[key]\<close> plus the sum of \<open>diffs\<close> minus \<open>n\<close> times
  \<open>mat_term[key]\<close>.
\<close>

theorem w_project_formula:
  assumes "w_project prox_res s_half = Inr (mat_term, z_new)"
    and "map_of s_half k = Some sv"
  shows "map_of mat_term k =
           Some (sum_list (diffs_of prox_res k sv) /\<^sub>R (1 + real (length (diffs_of prox_res k sv))))
       \<and> map_of z_new k =
           Some (sv + sum_list (diffs_of prox_res k sv)
                 - real (length (diffs_of prox_res k sv)) *\<^sub>R
                   (sum_list (diffs_of prox_res k sv) /\<^sub>R (1 + real (length (diffs_of prox_res k sv)))))"
proof -
  from assms(1) obtain yd vc where
    g: "gather prox_res s_half ([], []) = Inr (yd, vc)" and
    mt: "mat_term = map (\<lambda>(k, sv). (k, fst (project_key yd vc k sv))) s_half" and
    zn: "z_new = map (\<lambda>(k, sv). (k, snd (project_key yd vc k sv))) s_half"
    by (auto simp: w_project_def split: sum.splits if_splits)
  from gather_acc [OF g assms(2)] have
    d: "dd_get yd [] k = diffs_of prox_res k sv" and
    c: "dd_get vc 0 k = real (length (diffs_of prox_res k sv))"
    by (simp_all add: dd_get_def)
  show ?thesis
    by (simp add: mt zn map_of_map_entry [OF assms(2)] project_key_def d c Let_def)
qed

theorem w_project_formula_witness:
  "w_project [(OPTIMAL, [(0, 3)]), (OPTIMAL, [(0, 5)])] [(0, 1::real)] = Inr ([(0, 2)], [(0, 3)])
   \<and> map_of [(0::key, 1::real)] 0 = Some 1
   \<and> diffs_of [(OPTIMAL, [(0, 3)]), (OPTIMAL, [(0, 5)])] 0 (1::real) = [2, 4]
   \<and> map_of [(0::key, 2::real)] 0 = Some (sum_list [2, 4] /\<^sub>R (1 + real (length [2::real, 4])))
   \<and> map_of [(0::key, 3::real)] 0
       = Some (1 + sum_list [2, 4] - real (length [2::real, 4]) *\<^sub>R
               (sum_list [2, 4] /\<^sub>R (1 + real (length [2::real, 4]))))"
proof -
  have h1: "w_project [(OPTIMAL, [(0, 3)]), (OPTIMAL, [(0, 5)])] [(0, 1::real)]
              = Inr ([(0, 2)], [(0, 3)])"
    by (simp add: w_project_def getitem_def dd_get_def project_key_def INF_OR_UNB_def Let_def)
  have h2: "map_of [(0::key, 1::real)] 0 = Some 1" by simp
  have h3: "diffs_of [(OPTIMAL, [(0, 3)]), (OPTIMAL, [(0, 5)])] 0 (1::real) = [2, 4]"
    by (simp add: diffs_of_def)
  from w_project_formula [OF h1 h2] h1 h2 h3 show ?thesis by simp
qed

lemma store_diffs_keys:
  "store_diffs y_half s_half (yd, vc) = Inr (yd', vc') \<Longrightarrow>
     fst ` set yd' = fst ` set yd \<union> fst ` set y_half"
proof (induction y_half arbitrary: yd vc)
  case Nil
  then show ?case by simp
next
  case (Cons p rest)
  obtain k0 yv where p: "p = (k0, yv)" by (cases p)
  from Cons.prems p obtain sv0 where
    r: "store_diffs rest s_half
          (AList.update k0 (dd_get yd [] k0 @ [yv - sv0]) yd,
           AList.update k0 (dd_get vc 0 k0 + 1) vc) = Inr (yd', vc')"
    by (auto split: sum.splits)
  from Cons.IH [OF r] show ?case
    by (simp add: p dom_update)
qed

lemma gather_keys:
  "gather prox_res s_half (yd, vc) = Inr (yd', vc') \<Longrightarrow>
     fst ` set yd' = fst ` set yd \<union> (\<Union>(st, y_half) \<in> set prox_res. fst ` set y_half)"
proof (induction prox_res arbitrary: yd vc)
  case Nil
  then show ?case by simp
next
  case (Cons p rest)
  obtain st y_half where p: "p = (st, y_half)" by (cases p)
  from Cons.prems p obtain yd1 vc1 where
    s: "store_diffs y_half s_half (yd, vc) = Inr (yd1, vc1)" and
    r: "gather rest s_half (yd1, vc1) = Inr (yd', vc')"
    by (auto split: sum.splits if_splits)
  from store_diffs_keys [OF s] Cons.IH [OF r] show ?case
    by (auto simp: p)
qed

lemma store_diffs_error:
  "store_diffs y_half s_half acc = Inl e \<Longrightarrow> \<exists>k. e = KeyError k \<and> k \<notin> fst ` set s_half"
proof (induction y_half s_half acc rule: store_diffs.induct)
  case (1 s_half acc)
  then show ?case by simp
next
  case (2 k yv rest s_half ys_diff var_cnt)
  show ?case
  proof (cases "map_of s_half k")
    case None
    with "2.prems" show ?thesis
      by (auto simp: getitem_def map_of_eq_None_iff)
  next
    case (Some sv)
    with 2 show ?thesis
      by (auto simp: getitem_def)
  qed
qed

lemma gather_error:
  "gather prox_res s_half acc = Inl e \<Longrightarrow>
     e = RuntimeError_infeasible \<or> (\<exists>k. e = KeyError k \<and> k \<notin> fst ` set s_half)"
proof (induction prox_res arbitrary: acc)
  case Nil
  then show ?case by simp
next
  case (Cons p rest)
  obtain st y_half where p: "p = (st, y_half)" by (cases p)
  show ?case
  proof (cases "st \<in> set INF_OR_UNB")
    case True
    with Cons.prems p show ?thesis by simp
  next
    case False
    show ?thesis
    proof (cases "store_diffs y_half s_half acc")
      case (Inl e')
      with Cons.prems p False have "e = e'" by simp
      with store_diffs_error [OF Inl] show ?thesis by simp
    next
      case (Inr acc')
      with Cons.prems p False have "gather rest s_half acc' = Inl e" by simp
      from Cons.IH [OF this] show ?thesis .
    qed
  qed
qed

text \<open>
  Claim C5, as stated: a worker whose reported key set differs from the coordinator's
  makes the projection fail. It does not: the second worker below reports only key 0 of
  the two tracked keys, and the projection is computed.
\<close>

theorem w_project_partial_report_counterexample:
  "fst ` set [(0::key, 1::real)] \<noteq> fst ` set [(0::key, 0::real), (1, 0)]
   \<and> w_project [(OPTIMAL, [(0, 1), (1, 1)]), (OPTIMAL, [(0, 1)])] [(0, 0::real), (1, 0)]
       = Inr ([(0, 2/3), (1, 1/2)], [(0, 2/3), (1, 1/2)])"
  by (simp add: w_project_def getitem_def dd_get_def project_key_def INF_OR_UNB_def Let_def)

text \<open>
  Claim C5, amended. If the union of the key sets reported by the workers differs from
  the key set of \<open>s_half\<close>, the projection step raises and computes nothing: the
  \<open>RuntimeError\<close> of an infeasible or unbounded status met first, the \<open>RuntimeError\<close>
  of the key-set comparison, or the \<open>KeyError\<close> of the subtraction
  \<open>y_half[key] - s_half[key]\<close> at a reported key that \<open>s_half\<close> does not hold.
\<close>

theorem w_project_key_mismatch:
  assumes "(\<Union>(st, y_half) \<in> set prox_res. fst ` set y_half) \<noteq> fst ` set s_half"
  shows "w_project prox_res s_half = Inl RuntimeError_infeasible
       \<or> w_project prox_res s_half = Inl RuntimeError_mismatch
       \<or> (\<exists>k. k \<notin> fst ` set s_half \<and> w_project prox_res s_half = Inl (KeyError k))"
proof (cases "gather prox_res s_half ([], [])")
  case (Inl e)
  from gather_error [OF Inl] Inl show ?thesis
    by (auto simp: w_project_def)
next
  case (Inr acc)
  obtain yd vc where acc: "acc = (yd, vc)" by (cases acc)
  from gather_keys [of prox_res s_half "[]" "[]" yd vc] Inr acc
  have "fst ` set yd = (\<Union>(st, y_half) \<in> set prox_res. fst ` set y_half)" by simp
  with assms have "set (map fst s_half) \<noteq> set (map fst yd)" by auto
  with Inr acc show ?thesis
    by (simp add: w_project_def)
qed

theorem w_project_key_mismatch_witness:
  "(\<Union>(st, y_half) \<in> set [(OPTIMAL, [(0::key, 1::real)])]. fst ` set y_half)
      \<noteq> fst ` set [(0::key, 0::real), (1, 0)]
   \<and> w_project [(OPTIMAL, [(0, 1)])] [(0, 0::real), (1, 0)] = Inl RuntimeError_mismatch"
proof -
  have h: "(\<Union>(st, y_half) \<in> set [(OPTIMAL, [(0::key, 1::real)])]. fst ` set y_half)
      \<noteq> fst ` set [(0::key, 0::real), (1, 0)]" by simp
  have "w_project [(OPTIMAL, [(0, 1)])] [(0, 0::real), (1, 0)] \<noteq> Inl RuntimeError_infeasible"
    by (simp add: w_project_def getitem_def dd_get_def INF_OR_UNB_def)
  moreover have "\<not> (\<exists>k. k \<notin> fst ` set [(0::key, 0::real), (1, 0)]
      \<and> w_project [(OPTIMAL, [(0, 1)])] [(0, 0::real), (1, 0)] = Inl (KeyError k))"
    by (simp add: w_project_def getitem_def dd_get_def INF_OR_UNB_def)
  ultimately show ?thesis
    using w_project_key_mismatch [OF h] h by blast
qed


section \<open>Properties of the entry point\<close>

lemmas run_defs =
  consensus_def run_cfg_def two_nodes_def infeasible_node_def uniform_weights_def
  const_problem_def init_state_def var_all_def prox_step_def consensus_round_def
  worker_half_def run_half_def w_project_def getitem_def dd_get_def project_key_def INF_OR_UNB_def Let_def
  plain_round_def worker_plain_def concatenate_def setitem_def accel_round_def
  worker_accel_def worker_mix_def push_hist_def weighted_update_def l2_norm_def

text \<open>
  Claim C9. A call with a negative \<open>m_accel\<close>, such as \<open>m_accel = -1\<close> with
  \<open>anderson = True\<close>, raises the \<open>ValueError\<close> of the configuration check, and no
  worker process has been started.
\<close>

theorem negative_m_accel:
  "m_accel c < 0 \<Longrightarrow> consensus c = (Inl ValueError_m_accel, \<lparr>started = 0, terminated = False\<rparr>)"
  by (simp add: consensus_def)

theorem negative_m_accel_witness:
  "m_accel (run_cfg two_nodes True (- 1) 100) < 0
   \<and> consensus (run_cfg two_nodes True (- 1) 100)
       = (Inl ValueError_m_accel, \<lparr>started = 0, terminated = False\<rparr>)"
proof -
  have h: "m_accel (run_cfg two_nodes True (- 1) 100) < 0" by (simp add: run_cfg_def)
  from negative_m_accel [OF h] h show ?thesis by simp
qed

lemma consensus_round_resid:
  "consensus_round c k st = Inr st' \<Longrightarrow>
     k < length (resid_of st) \<and> (\<exists>r. resid_of st' = (resid_of st)[k := r])"
  by (auto simp: consensus_round_def plain_round_def accel_round_def setitem_def Let_def
      split: sum.splits prod.splits if_splits)

lemma consensus_round_short_resid:
  assumes "consensus_round c k st = Inr st'"
    and "length r \<le> k"
    and "p_list c' = p_list c" "anderson c' = anderson c" "m_accel c' = m_accel c"
        "aa_weights c' = aa_weights c"
  shows "consensus_round c' k (st\<lparr>resid_of := r\<rparr>) = Inl IndexError"
  using assms
  by (auto simp: consensus_round_def plain_round_def accel_round_def setitem_def Let_def
      split: sum.splits prod.splits if_splits)

text \<open>
  Claim C10. The entry point returns normally only if \<open>max_iter >= 1\<close>. With
  \<open>max_iter = 0\<close> the array \<open>resid\<close> is empty and the body of the loop still runs
  once: whenever the first round raises nothing by itself (the same call with
  \<open>max_iter = 1\<close> returns), the call with \<open>max_iter = 0\<close> fails with \<open>IndexError\<close>
  at \<open>resid[0]\<close>, all workers started and none terminated.
\<close>

theorem max_iter_precondition:
  "(fst (consensus c) = Inr r \<longrightarrow> 1 \<le> max_iter c)
   \<and> (fst (consensus (c\<lparr>max_iter := 1\<rparr>)) = Inr r' \<longrightarrow>
        consensus (c\<lparr>max_iter := 0\<rparr>)
          = (Inl IndexError, \<lparr>started = length (p_list c), terminated = False\<rparr>))"
proof (intro conjI impI)
  assume a: "fst (consensus c) = Inr r"
  show "1 \<le> max_iter c"
  proof (rule ccontr)
    assume "\<not> 1 \<le> max_iter c"
    then have m: "max_iter c \<le> 0" by simp
    from a m have m0: "max_iter c = 0" and ma: "\<not> m_accel c < 0"
      by (auto simp: consensus_def Let_def split: if_splits)
    from a m0 ma obtain res where l: "consensus_loop c 0 (init_state c) = Inr res"
      by (auto simp: consensus_def Let_def split: sum.splits)
    then obtain st' where "consensus_round c 0 (init_state c) = Inr st'"
      by (subst (asm) consensus_loop.simps) (auto split: sum.splits)
    from consensus_round_resid [OF this] m0 show False
      by (simp add: init_state_def)
  qed
next
  assume a: "fst (consensus (c\<lparr>max_iter := 1\<rparr>)) = Inr r'"
  let ?c1 = "c\<lparr>max_iter := 1\<rparr>" and ?c0 = "c\<lparr>max_iter := 0\<rparr>"
  from a have ma: "\<not> m_accel c < 0"
    by (auto simp: consensus_def Let_def split: if_splits)
  from a ma obtain res where "consensus_loop ?c1 0 (init_state ?c1) = Inr res"
    by (auto simp: consensus_def Let_def split: sum.splits)
  then obtain st' where r1: "consensus_round ?c1 0 (init_state ?c1) = Inr st'"
    by (subst (asm) consensus_loop.simps) (auto split: sum.splits)
  have i: "init_state ?c0 = (init_state ?c1)\<lparr>resid_of := []\<rparr>"
    by (simp add: init_state_def)
  have "consensus_round ?c0 0 (init_state ?c0) = Inl IndexError"
    unfolding i by (rule consensus_round_short_resid [OF r1]) simp_all
  then have "consensus_loop ?c0 0 (init_state ?c0) = Inl IndexError"
    by (subst consensus_loop.simps) simp
  with ma show "consensus ?c0 = (Inl IndexError, \<lparr>started = length (p_list c), terminated = False\<rparr>)"
    by (simp add: consensus_def)
qed

theorem max_iter_precondition_witness:
  "fst (consensus (run_cfg two_nodes False 5 1))
     = Inr \<lparr>zvals = [(0, 8/3)], residuals = [sqrt ((5/3)\<^sup>2 + ((1/3)\<^sup>2 + (8/3)\<^sup>2))],
            num_iters = 1\<rparr>
   \<and> 1 \<le> max_iter (run_cfg two_nodes False 5 1)
   \<and> consensus (run_cfg two_nodes False 5 0)
       = (Inl IndexError, \<lparr>started = 2, terminated = False\<rparr>)"
proof -
  have h: "fst (consensus (run_cfg two_nodes False 5 1))
     = Inr \<lparr>zvals = [(0, 8/3)], residuals = [sqrt ((5/3)\<^sup>2 + ((1/3)\<^sup>2 + (8/3)\<^sup>2))],
            num_iters = 1\<rparr>"
    by (simp add: run_defs)
  have e1: "(run_cfg two_nodes False 5 1)\<lparr>max_iter := 1\<rparr> = run_cfg two_nodes False 5 1"
    and e0: "(run_cfg two_nodes False 5 1)\<lparr>max_iter := 0\<rparr> = run_cfg two_nodes False 5 0"
    and n: "length (p_list (run_cfg two_nodes False 5 1)) = 2"
    by (simp_all add: run_cfg_def two_nodes_def)
  from max_iter_precondition [of "run_cfg two_nodes False 5 1" _ _] h e1 e0 n show ?thesis
    by auto
qed

text \<open>
  Claim C6, at a run whose second node has no variable and reports an infeasible local
  solve in round 0: its worker sends \<open>(status, {})\<close>, and the \<open>RuntimeError\<close> of
  \<open>w_project\<close> leaves \<open>consensus\<close> with both workers started and
  \<open>[p.terminate() for p in procs]\<close> not reached.
\<close>

theorem infeasible_leaves_workers_running:
  "consensus (run_cfg infeasible_node False 5 100)
     = (Inl RuntimeError_infeasible, \<lparr>started = 2, terminated = False\<rparr>)"
  by (simp add: run_defs)

text \<open>
  Claim C3, as stated, fails at \<open>max_iter = 0\<close>: every local solve returns, one round
  is executed, and the run raises \<open>IndexError\<close> instead of returning.
\<close>

theorem run_raises_counterexample:
  "max_iter (run_cfg two_nodes True 5 0) = 0
   \<and> consensus (run_cfg two_nodes True 5 0)
       = (Inl IndexError, \<lparr>started = 2, terminated = False\<rparr>)"
  by (simp add: run_defs)

text \<open>
  Claim C4, at two nodes sharing one variable whose local solves return 1 and 3, with
  \<open>m_accel = 0\<close> and the weight vector \<open>[1]\<close>: after round 0 the duals of the
  accelerated run are \<open>x_half - x_new\<close>, those of the run without acceleration are
  \<open>y + x_new - x_half\<close>, from the same inputs.
\<close>

theorem accel_dual_update_differs:
  "map_sum id duals_of (rounds (run_cfg two_nodes True 0 100) 1)
      = Inr [Inr [(0, - (5/3))], Inr [(0, 1/3)]]
   \<and> map_sum id duals_of (rounds (run_cfg two_nodes False 0 100) 1)
      = Inr [Inr [(0, 5/3)], Inr [(0, - (1/3))]]"
  by (simp add: run_defs duals_of_def)

text \<open>
  Claim C2, at the same accelerated run: after round 0 the coordinator holds
  \<open>z = 8/3\<close> and \<open>s = -8/3\<close>; round 1 gathers the half steps \<open>11/3\<close> and \<open>17/3\<close>
  and yields \<open>z = 4\<close>, the projection from the baseline \<open>z\<close>; from the baseline \<open>s\<close>
  it would be \<open>20/9\<close>.
\<close>

theorem projection_ignores_split:
  "map_sum id z_of (rounds (run_cfg two_nodes True 0 100) 1) = Inr [(0, 8/3)]
   \<and> map_sum id s_of (rounds (run_cfg two_nodes True 0 100) 1) = Inr [(0, - (8/3))]
   \<and> (case rounds (run_cfg two_nodes True 0 100) 1 of Inl err \<Rightarrow> Inl err
       | Inr st \<Rightarrow> prox_res_of st) = Inr [(OPTIMAL, [(0, 11/3)]), (OPTIMAL, [(0, 17/3)])]
   \<and> map_sum id z_of (rounds (run_cfg two_nodes True 0 100) 2) = Inr [(0, 4)]
   \<and> map_sum id snd (w_project [(OPTIMAL, [(0, 11/3)]), (OPTIMAL, [(0, 17/3)])] [(0, 8/3 :: real)])
        = Inr [(0, 4)]
   \<and> map_sum id snd (w_project [(OPTIMAL, [(0, 11/3)]), (OPTIMAL, [(0, 17/3)])] [(0, - (8/3) :: real)])
        = Inr [(0, 20/9)]"
  by (simp add: run_defs prox_res_of_def numeral_2_eq_2)


section \<open>Dictionaries, messages and the steps of a round\<close>

lemma getitem_Inr_iff: "getitem d k = Inr v \<longleftrightarrow> map_of d k = Some v"
  by (simp add: getitem_def split: option.splits)

lemma getitem_ok: "k \<in> fst ` set d \<Longrightarrow> \<exists>v. getitem d k = Inr v"
  by (cases "map_of d k") (auto simp: getitem_def map_of_eq_None_iff)

lemma getitem_key: "getitem d k = Inr v \<Longrightarrow> k \<in> fst ` set d"
  by (auto simp: getitem_def split: option.splits dest: map_of_SomeD intro: rev_image_eqI)

lemma recv_all_map_Inr: "recv_all (map Inr xs) = Inr xs"
  by (induction xs) simp_all

lemma recv_all_InrD: "recv_all ms = Inr xs \<Longrightarrow> ms = map Inr xs"
proof (induction ms arbitrary: xs rule: recv_all.induct)
  case 1
  then show ?case by simp
next
  case (2 e ms)
  then show ?case by simp
next
  case (3 m ms)
  from "3.prems" obtain rest where r: "recv_all ms = Inr rest" and x: "xs = m # rest"
    by (cases "recv_all ms") auto
  from "3.IH" [OF r] x show ?case by simp
qed

lemma recv_all_Inr_iff: "recv_all ms = Inr xs \<longleftrightarrow> ms = map Inr xs"
  using recv_all_InrD recv_all_map_Inr by blast

lemma recv_all_map:
  "recv_all (map f ys) = Inr zs \<longleftrightarrow> list_all2 (\<lambda>y z. f y = Inr z) ys zs"
  by (auto simp: recv_all_Inr_iff list_all2_conv_all_nth list_eq_iff_nth_eq)

lemma keys_foldl_update:
  "fst ` set (foldl (\<lambda>d k. AList.update k (f k) d) d0 ks) = fst ` set d0 \<union> set ks"
  by (induction ks arbitrary: d0) (auto simp: dom_update)

lemma distinct_foldl_update:
  "distinct (map fst d0) \<Longrightarrow> distinct (map fst (foldl (\<lambda>d k. AList.update k (f k) d) d0 ks))"
  by (induction ks arbitrary: d0) (auto simp: distinct_update)

lemma set_prox_step: "fst ` set (prox_step p) = set (variables p)"
  by (simp add: prox_step_def keys_foldl_update)

lemma set_var_all: "set (var_all ps) = (\<Union>p \<in> set ps. set (variables p))"
  by (simp add: var_all_def keys_foldl_update)

lemma distinct_var_all: "distinct (var_all ps)"
  by (simp add: var_all_def distinct_foldl_update)

lemma worker_half_props:
  "worker_half w = Inr ((st, yh), (xh, w')) \<Longrightarrow>
     st = fst (prox w (vmap w)) \<and> (st \<notin> set INF_OR_UNB \<or> vmap w = [])
     \<and> map fst yh = map fst (vmap w) \<and> map fst xh = map fst (vmap w)
     \<and> map fst (vmap w') = map fst (vmap w) \<and> y_diff w' = y_diff w \<and> prox w' = prox w"
  by (auto simp: worker_half_def Let_def split: prod.splits if_splits)

lemma worker_half_ok:
  "fst (prox w (vmap w)) \<notin> set INF_OR_UNB \<Longrightarrow> \<exists>h. worker_half w = Inr h"
  by (cases "prox w (vmap w)") (simp add: worker_half_def Let_def)

lemma update_w_accel_keys:
  "update_w_accel v mt zn xh = Inr (v', diff, res) \<Longrightarrow>
     map fst v' = map fst v \<and> map fst diff = map fst v \<and> length res = length v"
proof (induction v arbitrary: v' diff res)
  case Nil
  then show ?case by simp
next
  case (Cons a v)
  obtain k e where a: "a = (k, e)" by (cases a)
  from Cons.prems a obtain v1 d1 r1 where
    r: "update_w_accel v mt zn xh = Inr (v1, d1, r1)" and
    e: "map fst v' = k # map fst v1" "map fst diff = k # map fst d1" "length res = Suc (length r1)"
    by (auto simp: Let_def split: sum.splits)
  from Cons.IH [OF r] e a show ?case by simp
qed

lemma update_w_accel_ok:
  "fst ` set v \<subseteq> fst ` set mt \<Longrightarrow> fst ` set v \<subseteq> fst ` set zn \<Longrightarrow> fst ` set v \<subseteq> fst ` set xh
     \<Longrightarrow> \<exists>r. update_w_accel v mt zn xh = Inr r"
proof (induction v)
  case Nil
  then show ?case by simp
next
  case (Cons a v)
  obtain k e where a: "a = (k, e)" by (cases a)
  from Cons.prems a obtain m z x where
    "getitem mt k = Inr m" "getitem zn k = Inr z" "getitem xh k = Inr x"
    using getitem_ok [of k mt] getitem_ok [of k zn] getitem_ok [of k xh] by auto
  moreover from Cons obtain r where "update_w_accel v mt zn xh = Inr r" by auto
  ultimately show ?case
    by (cases r) (simp add: a Let_def)
qed

lemma update_w_plain_keys:
  "update_w_plain v mt zn xh = Inr (v', res) \<Longrightarrow>
     map fst v' = map fst v \<and> length res = length v"
proof (induction v arbitrary: v' res)
  case Nil
  then show ?case by simp
next
  case (Cons a v)
  obtain k e where a: "a = (k, e)" by (cases a)
  from Cons.prems a obtain v1 r1 where
    r: "update_w_plain v mt zn xh = Inr (v1, r1)" and
    e: "map fst v' = k # map fst v1" "length res = Suc (length r1)"
    by (auto simp: Let_def split: sum.splits)
  from Cons.IH [OF r] e a show ?case by simp
qed

lemma update_w_plain_ok:
  "fst ` set v \<subseteq> fst ` set mt \<Longrightarrow> fst ` set v \<subseteq> fst ` set zn \<Longrightarrow> fst ` set v \<subseteq> fst ` set xh
     \<Longrightarrow> \<exists>r. update_w_plain v mt zn xh = Inr r"
proof (induction v)
  case Nil
  then show ?case by simp
next
  case (Cons a v)
  obtain k e where a: "a = (k, e)" by (cases a)
  from Cons.prems a obtain m z x where
    "getitem mt k = Inr m" "getitem zn k = Inr z" "getitem xh k = Inr x"
    using getitem_ok [of k mt] getitem_ok [of k zn] getitem_ok [of k xh] by auto
  moreover from Cons obtain r where "update_w_plain v mt zn xh = Inr r" by auto
  ultimately show ?case
    by (cases r) (simp add: a Let_def)
qed

lemma weighted_ok:
  "\<forall>j\<in>set js. j < length alpha \<and> j < length hist \<and> k \<in> fst ` set (hist ! j)
     \<Longrightarrow> \<exists>r. weighted alpha hist k js acc = Inr r"
proof (induction js arbitrary: acc)
  case Nil
  then show ?case by simp
next
  case (Cons j js)
  from Cons.prems obtain d where "getitem (hist ! j) k = Inr d"
    using getitem_ok [of k "hist ! j"] by auto
  with Cons show ?case by simp
qed

lemma weighted_InrD:
  "weighted alpha hist k js acc = Inr r \<Longrightarrow> \<forall>j\<in>set js. j < length alpha"
proof (induction js arbitrary: acc)
  case Nil
  then show ?case by simp
next
  case (Cons j js)
  from Cons.prems have j: "j < length alpha"
    by (simp split: if_splits)
  from Cons.prems j obtain acc' where "weighted alpha hist k js acc' = Inr r"
    by (auto split: if_splits sum.splits)
  from Cons.IH [OF this] j show ?case by simp
qed

lemma weighted_update_ok:
  assumes "hist \<noteq> []" and "\<forall>d\<in>set hist. k \<in> fst ` set d"
    and "nat (m_k + 1) \<le> length alpha" and "nat (m_k + 1) \<le> length hist"
  shows "\<exists>r. weighted_update alpha hist m_k k = Inr r"
proof -
  from assms(1) obtain h0 hs where h: "hist = h0 # hs" by (cases hist) auto
  with assms(2) obtain d0 where g: "getitem h0 k = Inr d0"
    using getitem_ok [of k h0] by auto
  have "\<forall>j\<in>set [0..<nat (m_k + 1)]. j < length alpha \<and> j < length hist \<and> k \<in> fst ` set (hist ! j)"
    using assms(2-4) by auto
  from weighted_ok [OF this] obtain r where
    "weighted alpha hist k [0..<nat (m_k + 1)] 0 = Inr r" by blast
  with h g show ?thesis by (simp add: weighted_update_def)
qed

lemma weighted_update_InrD:
  assumes "weighted_update alpha hist m_k k = Inr r"
  shows "nat (m_k + 1) \<le> length alpha"
proof -
  from assms have "weighted alpha hist k [0..<nat (m_k + 1)] 0 = Inr r"
    by (auto simp: weighted_update_def split: list.splits sum.splits)
  from weighted_InrD [OF this] have a: "\<forall>j<nat (m_k + 1). j < length alpha" by simp
  show ?thesis
  proof (cases "nat (m_k + 1)")
    case 0
    then show ?thesis by simp
  next
    case (Suc n)
    with a have "n < length alpha" by simp
    with Suc show ?thesis by simp
  qed
qed

lemma update_y_keys:
  "update_y alpha hist m_k v = Inr v' \<Longrightarrow> map fst v' = map fst v"
proof (induction v arbitrary: v')
  case Nil
  then show ?case by simp
next
  case (Cons a v)
  obtain k e where a: "a = (k, e)" by (cases a)
  from Cons.prems a obtain v1 where
    r: "update_y alpha hist m_k v = Inr v1" and e: "map fst v' = k # map fst v1"
    by (auto split: sum.splits)
  from Cons.IH [OF r] e a show ?case by simp
qed

lemma update_y_ok:
  "\<forall>k\<in>fst ` set v. \<exists>r. weighted_update alpha hist m_k k = Inr r
     \<Longrightarrow> \<exists>v'. update_y alpha hist m_k v = Inr v'"
proof (induction v)
  case Nil
  then show ?case by simp
next
  case (Cons a v)
  obtain k e where a: "a = (k, e)" by (cases a)
  from Cons.prems a obtain r where "weighted_update alpha hist m_k k = Inr r" by auto
  moreover from Cons obtain v' where "update_y alpha hist m_k v = Inr v'" by auto
  ultimately show ?case by (simp add: a)
qed

lemma update_s_accel_InrD:
  "update_s_accel alpha hist m_k ks s = Inr s' \<Longrightarrow> ks \<noteq> [] \<Longrightarrow> nat (m_k + 1) \<le> length alpha"
  by (cases ks) (auto split: sum.splits dest: weighted_update_InrD)

lemma update_s_accel_ok:
  "\<forall>k\<in>set ks. \<exists>r. weighted_update alpha hist m_k k = Inr r
     \<Longrightarrow> \<exists>s'. update_s_accel alpha hist m_k ks s = Inr s'"
proof (induction ks arbitrary: s)
  case Nil
  then show ?case by simp
next
  case (Cons k ks)
  from Cons.prems obtain r where "weighted_update alpha hist m_k k = Inr r" by auto
  with Cons show ?case by simp
qed

lemma update_s_length:
  "update_s ks z zn (s, r) = Inr (s', r') \<Longrightarrow> length r' = length r + length ks"
proof (induction ks arbitrary: s r)
  case Nil
  then show ?case by simp
next
  case (Cons k ks)
  from Cons.prems obtain s1 r1 where
    "update_s ks z zn (s1, r1) = Inr (s', r')" and "length r1 = Suc (length r)"
    by (auto split: sum.splits)
  with Cons.IH show ?case by fastforce
qed

lemma update_s_ok:
  "set ks \<subseteq> fst ` set z \<Longrightarrow> set ks \<subseteq> fst ` set zn \<Longrightarrow> \<exists>res. update_s ks z zn (s, r) = Inr res"
proof (induction ks arbitrary: s r)
  case Nil
  then show ?case by simp
next
  case (Cons k ks)
  from Cons.prems obtain a b where "getitem zn k = Inr a" "getitem z k = Inr b"
    using getitem_ok [of k zn] getitem_ok [of k z] by auto
  with Cons show ?case by simp
qed

lemma diff_z_props:
  "diff_z ks z zn (d, r) = Inr (d', r') \<Longrightarrow>
     length r' = length r + length ks \<and> fst ` set d' = fst ` set d \<union> set ks"
proof (induction ks arbitrary: d r)
  case Nil
  then show ?case by simp
next
  case (Cons k ks)
  from Cons.prems obtain d1 r1 where
    "diff_z ks z zn (d1, r1) = Inr (d', r')" and "length r1 = Suc (length r)"
    and "fst ` set d1 = insert k (fst ` set d)"
    by (auto split: sum.splits simp: dom_update)
  with Cons.IH [of d1 r1] show ?case by auto
qed

lemma diff_z_ok:
  "set ks \<subseteq> fst ` set z \<Longrightarrow> set ks \<subseteq> fst ` set zn \<Longrightarrow> \<exists>res. diff_z ks z zn (d, r) = Inr res"
proof (induction ks arbitrary: d r)
  case Nil
  then show ?case by simp
next
  case (Cons k ks)
  from Cons.prems obtain a b where "getitem zn k = Inr a" "getitem z k = Inr b"
    using getitem_ok [of k zn] getitem_ok [of k z] by auto
  with Cons show ?case by simp
qed

lemma push_hist_length:
  "length (push_hist m_k h d) = (if m_k + 1 < int (length h) + 1 then length h else length h + 1)"
  by (simp add: push_hist_def Let_def)

lemma push_hist_set: "set (push_hist m_k h d) \<subseteq> insert d (set h)"
  by (cases h) (auto simp: push_hist_def Let_def)

lemma push_hist_evict:
  "push_hist m_k h d = (if m_k + 1 < int (length h) + 1 then tl (h @ [d]) else h @ [d])"
  by (simp add: push_hist_def Let_def)

lemma store_diffs_ok:
  "fst ` set y_half \<subseteq> fst ` set s_half \<Longrightarrow> \<exists>acc'. store_diffs y_half s_half acc = Inr acc'"
proof (induction y_half arbitrary: acc)
  case Nil
  then show ?case by simp
next
  case (Cons a y_half)
  obtain k yv where a: "a = (k, yv)" by (cases a)
  obtain yd vc where acc: "acc = (yd, vc)" by (cases acc)
  from Cons.prems a obtain sv where "getitem s_half k = Inr sv"
    using getitem_ok [of k s_half] by auto
  with Cons a acc show ?case by simp
qed

lemma gather_ok:
  "\<forall>(st, y_half)\<in>set prox_res. st \<notin> set INF_OR_UNB \<and> fst ` set y_half \<subseteq> fst ` set s_half
     \<Longrightarrow> \<exists>acc'. gather prox_res s_half acc = Inr acc'"
proof (induction prox_res arbitrary: acc)
  case Nil
  then show ?case by simp
next
  case (Cons a prox_res)
  obtain st y_half where a: "a = (st, y_half)" by (cases a)
  from Cons.prems a have st: "st \<notin> set INF_OR_UNB" and k: "fst ` set y_half \<subseteq> fst ` set s_half"
    by auto
  from store_diffs_ok [OF k] obtain acc1 where "store_diffs y_half s_half acc = Inr acc1" by blast
  moreover from Cons.prems
  have "\<forall>(st, y_half)\<in>set prox_res. st \<notin> set INF_OR_UNB \<and> fst ` set y_half \<subseteq> fst ` set s_half"
    by simp
  from Cons.IH [OF this, of acc1] obtain acc' where "gather prox_res s_half acc1 = Inr acc'" by blast
  ultimately show ?case using st a by simp
qed

lemma w_project_keys:
  "w_project prox_res s_half = Inr (mt, zn) \<Longrightarrow>
     map fst mt = map fst s_half \<and> map fst zn = map fst s_half"
  by (auto simp: w_project_def split: sum.splits if_splits)

lemma w_project_ok:
  assumes "\<forall>(st, y_half)\<in>set prox_res. st \<notin> set INF_OR_UNB \<and> fst ` set y_half \<subseteq> fst ` set s_half"
    and "(\<Union>(st, y_half) \<in> set prox_res. fst ` set y_half) = fst ` set s_half"
  shows "\<exists>r. w_project prox_res s_half = Inr r"
proof -
  from gather_ok [OF assms(1), of "([], [])"] obtain acc where
    g0: "gather prox_res s_half ([], []) = Inr acc" by blast
  obtain yd vc where "acc = (yd, vc)" by (cases acc)
  with g0 have g: "gather prox_res s_half ([], []) = Inr (yd, vc)" by simp
  from gather_keys [OF g] assms(2) have "set (map fst s_half) = set (map fst yd)" by simp
  with g show ?thesis by (simp add: w_project_def)
qed

section \<open>The workers keep their shape\<close>

lemma worker_ok_half:
  assumes "worker_ok p n (Inr w)" and "worker_half w = Inr (msg, (xh, w1))"
  shows "(fst msg \<notin> set INF_OR_UNB \<or> variables p = [])
       \<and> map fst (snd msg) = map fst (prox_step p)
       \<and> map fst xh = map fst (prox_step p) \<and> worker_ok p n (Inr w1)"
proof -
  obtain st yh where m: "msg = (st, yh)" by (cases msg)
  from assms(1) have k: "map fst (vmap w) = map fst (prox_step p)" by (simp add: worker_ok_def)
  have "vmap w = [] \<Longrightarrow> variables p = []"
  proof -
    assume "vmap w = []"
    with k have "fst ` set (prox_step p) = {}" by simp
    then show "variables p = []" by (simp add: set_prox_step)
  qed
  with worker_half_props [of w st yh xh w1] assms m show ?thesis
    by (auto simp: worker_ok_def)
qed

lemma worker_ok_plain:
  assumes "worker_ok p n (Inr w1)" and "worker_plain mt zn (xh, w1) = Inr (res, w2)"
  shows "worker_ok p n (Inr w2)"
proof -
  from assms(2) obtain v' r0 where
    u: "update_w_plain (vmap w1) mt zn xh = Inr (v', r0)" and w2: "w2 = w1\<lparr>vmap := v'\<rparr>"
    by (auto simp: worker_plain_def split: sum.splits)
  from update_w_plain_keys [OF u] assms(1) w2 show ?thesis
    by (simp add: worker_ok_def)
qed

lemma worker_plain_ok:
  assumes "worker_ok p n (Inr w1)" and "map fst xh = map fst (prox_step p)"
    and "fst ` set (prox_step p) \<subseteq> fst ` set mt" and "fst ` set (prox_step p) \<subseteq> fst ` set zn"
    and "variables p \<noteq> []"
  shows "\<exists>r. worker_plain mt zn (xh, w1) = Inr r"
proof -
  from assms(1) have k: "map fst (vmap w1) = map fst (prox_step p)"
    by (simp add: worker_ok_def)
  then have s: "fst ` set (vmap w1) = fst ` set (prox_step p)"
    by (metis set_map)
  from assms(2) have sx: "fst ` set xh = fst ` set (prox_step p)"
    by (metis set_map)
  from update_w_plain_ok [of "vmap w1" mt zn xh] s sx assms(3,4) obtain r where
    "update_w_plain (vmap w1) mt zn xh = Inr r" by auto
  moreover obtain v' r0 where "r = (v', r0)" by (cases r)
  ultimately have u: "update_w_plain (vmap w1) mt zn xh = Inr (v', r0)" by simp
  from s assms(5) have "vmap w1 \<noteq> []"
    using set_prox_step [of p] by auto
  with update_w_plain_keys [OF u] have "r0 \<noteq> []" by auto
  with u show ?thesis
    by (simp add: worker_plain_def concatenate_def)
qed

lemma worker_accel_InrD:
  assumes "worker_accel m k mt zn (xh, w1) = Inr ((h, res), w2)"
  shows "\<exists>v' d r0. update_w_accel (vmap w1) mt zn xh = Inr (v', d, r0)
           \<and> h = push_hist (min m (int k)) (y_diff w1) d
           \<and> vmap w2 = v' \<and> y_diff w2 = h \<and> prox w2 = prox w1"
proof (cases "update_w_accel (vmap w1) mt zn xh")
  case (Inl e)
  with assms show ?thesis by (simp add: worker_accel_def Let_def)
next
  case (Inr r)
  obtain v' d r0 where r: "r = (v', d, r0)" by (cases r)
  show ?thesis
  proof (cases "r0 = []")
    case True
    with assms Inr r show ?thesis by (simp add: worker_accel_def Let_def concatenate_def)
  next
    case False
    with assms Inr r have
      "h = push_hist (min m (int k)) (y_diff w1) d"
      "w2 = w1\<lparr>vmap := v', y_diff := push_hist (min m (int k)) (y_diff w1) d\<rparr>"
      by (auto simp add: worker_accel_def Let_def concatenate_def)
    with Inr r show ?thesis by simp
  qed
qed

lemma worker_ok_accel:
  assumes "worker_ok p n (Inr w1)" and "worker_accel m k mt zn (xh, w1) = Inr ((h, res), w2)"
  shows "h = y_diff w2 \<and> (\<exists>d. y_diff w2 = push_hist (min m (int k)) (y_diff w1) d)
       \<and> worker_ok p (length (y_diff w2)) (Inr w2)"
proof -
  from worker_accel_InrD [OF assms(2)] obtain v' d r0 where
    u: "update_w_accel (vmap w1) mt zn xh = Inr (v', d, r0)" and
    h: "h = push_hist (min m (int k)) (y_diff w1) d" and
    w2: "vmap w2 = v'" "y_diff w2 = h" "prox w2 = prox w1"
    by blast
  from update_w_accel_keys [OF u] assms(1)
  have kd: "map fst d = map fst (prox_step p)" and kv: "map fst v' = map fst (prox_step p)"
    by (simp_all add: worker_ok_def)
  from assms(1) have old: "\<forall>e\<in>set (y_diff w1). map fst e = map fst (prox_step p)"
    by (simp add: worker_ok_def)
  have "\<forall>e\<in>set h. map fst e = map fst (prox_step p)"
  proof
    fix e assume "e \<in> set h"
    with push_hist_set [of "min m (int k)" "y_diff w1" d] h have "e = d \<or> e \<in> set (y_diff w1)"
      by auto
    with kd old show "map fst e = map fst (prox_step p)" by auto
  qed
  moreover from assms(1) w2 have "prox w2 = solve p" by (simp add: worker_ok_def)
  ultimately show ?thesis using kv w2 h
    by (simp add: worker_ok_def) blast
qed

lemma worker_accel_ok:
  assumes "worker_ok p n (Inr w1)" and "map fst xh = map fst (prox_step p)"
    and "fst ` set (prox_step p) \<subseteq> fst ` set mt" and "fst ` set (prox_step p) \<subseteq> fst ` set zn"
    and "variables p \<noteq> []"
  shows "\<exists>r. worker_accel m k mt zn (xh, w1) = Inr r"
proof -
  from assms(1) have k: "map fst (vmap w1) = map fst (prox_step p)"
    by (simp add: worker_ok_def)
  then have s: "fst ` set (vmap w1) = fst ` set (prox_step p)"
    by (metis set_map)
  from assms(2) have sx: "fst ` set xh = fst ` set (prox_step p)"
    by (metis set_map)
  from update_w_accel_ok [of "vmap w1" mt zn xh] s sx assms(3,4) obtain r where
    "update_w_accel (vmap w1) mt zn xh = Inr r" by auto
  moreover obtain v' d r0 where "r = (v', d, r0)" by (cases r)
  ultimately have u: "update_w_accel (vmap w1) mt zn xh = Inr (v', d, r0)" by simp
  from s assms(5) have "vmap w1 \<noteq> []"
    using set_prox_step [of p] by auto
  with update_w_accel_keys [OF u] have "r0 \<noteq> []" by auto
  with u show ?thesis
    by (simp add: worker_accel_def concatenate_def Let_def)
qed

lemma worker_ok_mix:
  assumes "worker_ok p n (Inr w2)" and "n = nat (min m (int k) + 1)" and "0 < n"
    and "n \<le> length alpha"
  shows "\<exists>w3. worker_mix m k alpha w2 = Inr w3 \<and> y_diff w3 = y_diff w2 \<and> worker_ok p n (Inr w3)"
proof -
  from assms(1) have kv: "map fst (vmap w2) = map fst (prox_step p)"
    and len: "length (y_diff w2) = n"
    and kd: "\<forall>d\<in>set (y_diff w2). map fst d = map fst (prox_step p)"
    by (simp_all add: worker_ok_def)
  from len assms(3) have ne: "y_diff w2 \<noteq> []" by auto
  have "\<forall>key\<in>fst ` set (vmap w2). \<exists>r. weighted_update alpha (y_diff w2) (min m (int k)) key = Inr r"
  proof
    fix key assume "key \<in> fst ` set (vmap w2)"
    then have "key \<in> set (map fst (prox_step p))" using kv by (metis set_map)
    with kd have "\<forall>d\<in>set (y_diff w2). key \<in> fst ` set d" by (metis set_map)
    from weighted_update_ok [OF ne this] assms(2,4) len
    show "\<exists>r. weighted_update alpha (y_diff w2) (min m (int k)) key = Inr r" by simp
  qed
  from update_y_ok [OF this] obtain v' where
    u: "update_y alpha (y_diff w2) (min m (int k)) (vmap w2) = Inr v'" by blast
  from update_y_keys [OF u] kv assms(1) u show ?thesis
    by (simp add: worker_mix_def worker_ok_def)
qed

section \<open>A round keeps the invariant\<close>

lemma list_all2_compose:
  "list_all2 P xs ys \<Longrightarrow> list_all2 Q ys zs \<Longrightarrow> (\<And>x y z. P x y \<Longrightarrow> Q y z \<Longrightarrow> R x z)
     \<Longrightarrow> list_all2 R xs zs"
  by (auto simp: list_all2_conv_all_nth)

lemma hist_len_step:
  assumes "anderson c" and "0 \<le> m_accel c"
  shows "(if min (m_accel c) (int k) + 1 < int (hist_len c k) + 1
          then hist_len c k else hist_len c k + 1) = hist_len c (Suc k)"
    and "hist_len c (Suc k) = nat (min (m_accel c) (int k) + 1)"
    and "(min (m_accel c) (int k) + 1 < int (hist_len c k) + 1) \<longleftrightarrow> m_accel c < int k"
  using assms by (auto simp: hist_len_def min_def)

lemma hist_len_plain: "\<not> anderson c \<Longrightarrow> hist_len c k = 0"
  by (simp add: hist_len_def)

lemma consensus_round_InrD:
  assumes "consensus_round c k st = Inr st'"
  shows "\<exists>halves mt zn.
           recv_all (map run_half (workers_of st)) = Inr halves
         \<and> w_project (map fst halves) (z_of st) = Inr (mt, zn)
         \<and> (if anderson c then accel_round c k st (map snd halves) mt zn
             else plain_round c k st (map snd halves) mt zn) = Inr st'"
proof (cases "recv_all (map run_half (workers_of st))")
  case (Inl e)
  with assms show ?thesis by (simp add: consensus_round_def)
next
  case (Inr halves)
  show ?thesis
  proof (cases "w_project (map fst halves) (z_of st)")
    case (Inl e)
    with assms Inr show ?thesis by (simp add: consensus_round_def)
  next
    case r: (Inr res)
    obtain mt zn where "res = (mt, zn)" by (cases res)
    with assms Inr r show ?thesis by (simp add: consensus_round_def)
  qed
qed

lemma plain_round_InrD:
  assumes "plain_round c k st hs mt zn = Inr st'"
  shows "\<exists>s' r0 replies resid'.
           update_s (var_all (p_list c)) (z_of st) zn (s_of st, []) = Inr (s', r0)
         \<and> r0 \<noteq> []
         \<and> recv_all (map (worker_plain mt zn) hs) = Inr replies
         \<and> setitem (resid_of st) k (l2_norm (concat (map fst replies) @ r0)) = Inr resid'
         \<and> st' = st\<lparr>z_of := zn, s_of := s', resid_of := resid',
                     workers_of := map (\<lambda>r. Inr (snd r)) replies\<rparr>"
proof (cases "update_s (var_all (p_list c)) (z_of st) zn (s_of st, [])")
  case (Inl e)
  with assms show ?thesis by (simp add: plain_round_def)
next
  case (Inr res)
  obtain s' r0 where res: "res = (s', r0)" by (cases res)
  show ?thesis
  proof (cases "r0 = []")
    case True
    with assms Inr res show ?thesis by (simp add: plain_round_def concatenate_def)
  next
    case ne: False
    show ?thesis
    proof (cases "recv_all (map (worker_plain mt zn) hs)")
      case (Inl e)
      with assms Inr res ne show ?thesis by (simp add: plain_round_def concatenate_def)
    next
      case rp: (Inr replies)
      show ?thesis
      proof (cases "setitem (resid_of st) k (l2_norm (concat (map fst replies) @ r0))")
        case (Inl e)
        with assms Inr res ne rp show ?thesis by (simp add: plain_round_def concatenate_def)
      next
        case si: (Inr resid')
        with assms Inr res ne rp show ?thesis
          by (auto simp add: plain_round_def concatenate_def)
      qed
    qed
  qed
qed

lemma accel_round_InrD:
  assumes "accel_round c k st hs mt zn = Inr st'"
  shows "\<exists>y_hist diff r0 resid' s'.
           recv_all (map (worker_accel (m_accel c) k mt zn) hs) = Inr y_hist
         \<and> y_hist \<noteq> []
         \<and> diff_z (var_all (p_list c)) (z_of st) zn ([], []) = Inr (diff, r0)
         \<and> r0 \<noteq> []
         \<and> setitem (resid_of st) k (l2_norm (concat (map (\<lambda>r. snd (fst r)) y_hist) @ r0)) = Inr resid'
         \<and> update_s_accel
              (aa_weights c (map (\<lambda>r. fst (fst r)) y_hist
                 @ [push_hist (min (m_accel c) (int k)) (s_diff_of st) diff]))
              (push_hist (min (m_accel c) (int k)) (s_diff_of st) diff)
              (min (m_accel c) (int k)) (var_all (p_list c)) (s_of st) = Inr s'
         \<and> z_of st' = zn \<and> s_of st' = s' \<and> resid_of st' = resid'
         \<and> s_diff_of st' = push_hist (min (m_accel c) (int k)) (s_diff_of st) diff
         \<and> workers_of st' =
             map (\<lambda>r. worker_mix (m_accel c) k
                        (aa_weights c (map (\<lambda>r. fst (fst r)) y_hist
                           @ [push_hist (min (m_accel c) (int k)) (s_diff_of st) diff]))
                        (snd r)) y_hist"
proof (cases "recv_all (map (worker_accel (m_accel c) k mt zn) hs)")
  case (Inl e)
  with assms show ?thesis by (simp add: accel_round_def)
next
  case (Inr y_hist)
  show ?thesis
  proof (cases "y_hist = []")
    case True
    with assms Inr show ?thesis by (simp add: accel_round_def)
  next
    case ne: False
    show ?thesis
    proof (cases "diff_z (var_all (p_list c)) (z_of st) zn ([], [])")
      case (Inl e)
      with assms Inr ne show ?thesis by (simp add: accel_round_def)
    next
      case dz: (Inr res)
      obtain diff r0 where res: "res = (diff, r0)" by (cases res)
      show ?thesis
      proof (cases "r0 = []")
        case True
        with assms Inr ne dz res show ?thesis by (simp add: accel_round_def concatenate_def)
      next
        case rne: False
        show ?thesis
        proof (cases "setitem (resid_of st) k
                        (l2_norm (concat (map (\<lambda>r. snd (fst r)) y_hist) @ r0))")
          case (Inl e)
          with assms Inr ne dz res rne show ?thesis
            by (simp add: accel_round_def concatenate_def)
        next
          case si: (Inr resid')
          show ?thesis
          proof (cases "update_s_accel
              (aa_weights c (map (\<lambda>r. fst (fst r)) y_hist
                 @ [push_hist (min (m_accel c) (int k)) (s_diff_of st) diff]))
              (push_hist (min (m_accel c) (int k)) (s_diff_of st) diff)
              (min (m_accel c) (int k)) (var_all (p_list c)) (s_of st)")
            case (Inl e)
            with assms Inr ne dz res rne si show ?thesis
              by (simp add: accel_round_def concatenate_def Let_def)
          next
            case us: (Inr s')
            with assms Inr ne dz res rne si show ?thesis
              by (auto simp add: accel_round_def concatenate_def Let_def)
          qed
        qed
      qed
    qed
  qed
qed

lemma worker_chain_half:
  assumes "worker_ok p n ew" and "run_half ew = Inr h"
  shows "\<exists>w. ew = Inr w \<and> worker_half w = Inr h
       \<and> (fst (fst h) \<notin> set INF_OR_UNB \<or> variables p = [])
       \<and> map fst (snd (fst h)) = map fst (prox_step p)
       \<and> map fst (fst (snd h)) = map fst (prox_step p)
       \<and> y_diff (snd (snd h)) = y_diff w
       \<and> worker_ok p n (Inr (snd (snd h)))"
proof -
  from assms(1) obtain w where ew: "ew = Inr w" by (cases ew) (simp_all add: worker_ok_def)
  with assms(2) have h: "worker_half w = Inr h" by (simp add: run_half_def)
  obtain msg xh w1 where hh: "h = (msg, (xh, w1))" by (metis prod.exhaust)
  obtain st yh where m: "msg = (st, yh)" by (cases msg)
  from worker_ok_half [OF assms(1) [unfolded ew] h [unfolded hh]]
    worker_half_props [OF h [unfolded hh m]]
  show ?thesis using ew h hh by simp
qed

lemma worker_chain_plain:
  assumes "worker_ok p n ew" and "run_half ew = Inr h"
    and "worker_plain mt zn (snd h) = Inr r"
  shows "worker_ok p n (Inr (snd r))"
proof -
  from worker_chain_half [OF assms(1,2)] have ok: "worker_ok p n (Inr (snd (snd h)))" by blast
  from assms(3) have "worker_plain mt zn (fst (snd h), snd (snd h)) = Inr (fst r, snd r)" by simp
  from worker_ok_plain [OF ok this] show ?thesis .
qed

lemma worker_chain_accel:
  assumes "worker_ok p n ew" and "run_half ew = Inr h"
    and "worker_accel m k mt zn (snd h) = Inr r"
    and "(if min m (int k) + 1 < int n + 1 then n else n + 1) = n'"
    and "n' = nat (min m (int k) + 1)" and "0 < n'" and "n' \<le> length alpha"
  shows "\<exists>w w3 d. ew = Inr w \<and> worker_mix m k alpha (snd r) = Inr w3
       \<and> y_diff w3 = push_hist (min m (int k)) (y_diff w) d
       \<and> fst (fst r) = y_diff w3 \<and> length (y_diff w3) = n'
       \<and> worker_ok p n' (Inr w3)"
proof -
  from worker_chain_half [OF assms(1,2)] obtain w where
    ew: "ew = Inr w" and yd: "y_diff (snd (snd h)) = y_diff w"
    and ok: "worker_ok p n (Inr (snd (snd h)))" by blast
  from assms(3) have
    "worker_accel m k mt zn (fst (snd h), snd (snd h)) = Inr ((fst (fst r), snd (fst r)), snd r)"
    by simp
  from worker_ok_accel [OF ok this] obtain d where
    h: "fst (fst r) = y_diff (snd r)" and
    p: "y_diff (snd r) = push_hist (min m (int k)) (y_diff w) d" and
    ok2: "worker_ok p (length (y_diff (snd r))) (Inr (snd r))"
    using yd by auto
  from assms(1) ew have "length (y_diff w) = n" by (simp add: worker_ok_def)
  with p assms(4) have len: "length (y_diff (snd r)) = n'"
    by (auto simp: push_hist_length split: if_splits)
  from worker_ok_mix [OF ok2 [unfolded len] assms(5,6,7)] obtain w3 where
    "worker_mix m k alpha (snd r) = Inr w3" "y_diff w3 = y_diff (snd r)" "worker_ok p n' (Inr w3)"
    by blast
  with ew h p len show ?thesis by auto
qed

lemma var_all_diff_z:
  assumes "diff_z (var_all ps) z zn ([], []) = Inr (diff, r0)"
  shows "fst ` set diff = set (var_all ps)" and "length r0 = length (var_all ps)"
  using diff_z_props [OF assms] by simp_all

lemma state_ok_plain_step:
  assumes ok: "state_ok c k st" and na: "\<not> anderson c"
    and r: "consensus_round c k st = Inr st'"
  shows "state_ok c (Suc k) st'"
proof -
  from consensus_round_InrD [OF r] na obtain halves mt zn where
    rh: "recv_all (map run_half (workers_of st)) = Inr halves" and
    wp: "w_project (map fst halves) (z_of st) = Inr (mt, zn)" and
    pr: "plain_round c k st (map snd halves) mt zn = Inr st'"
    by auto
  from plain_round_InrD [OF pr] obtain s' r0 replies resid' where
    rp: "recv_all (map (worker_plain mt zn) (map snd halves)) = Inr replies" and
    st': "st' = st\<lparr>z_of := zn, s_of := s', resid_of := resid',
                     workers_of := map (\<lambda>r. Inr (snd r)) replies\<rparr>"
    by blast
  from ok have w: "list_all2 (\<lambda>p ew. worker_ok p (hist_len c k) ew) (p_list c) (workers_of st)"
    by (simp add: state_ok_def)
  from rh have a: "list_all2 (\<lambda>ew h. run_half ew = Inr h) (workers_of st) halves"
    by (simp add: recv_all_map)
  from rp have b: "list_all2 (\<lambda>h r. worker_plain mt zn (snd h) = Inr r) halves replies"
    by (simp add: recv_all_map list_all2_map1)
  have wh: "list_all2 (\<lambda>p h. \<exists>ew. worker_ok p (hist_len c k) ew \<and> run_half ew = Inr h)
              (p_list c) halves"
    by (rule list_all2_compose [OF w a]) blast
  have "list_all2 (\<lambda>p r. worker_ok p (hist_len c k) (Inr (snd r))) (p_list c) replies"
    by (rule list_all2_compose [OF wh b]) (blast intro: worker_chain_plain)
  then have "list_all2 (\<lambda>p ew. worker_ok p (hist_len c (Suc k)) ew) (p_list c)
               (map (\<lambda>r. Inr (snd r)) replies)"
    using na by (simp add: list_all2_map2 hist_len_plain)
  moreover from w_project_keys [OF wp] ok have "map fst zn = var_all (p_list c)"
    by (simp add: state_ok_def)
  moreover from ok na have "length (s_diff_of st) = hist_len c (Suc k)"
    and "\<forall>d\<in>set (s_diff_of st). set (var_all (p_list c)) \<subseteq> fst ` set d"
    by (simp_all add: state_ok_def hist_len_plain)
  ultimately show ?thesis
    by (simp add: state_ok_def st')
qed

lemma state_ok_accel_step:
  assumes ok: "state_ok c k st" and an: "anderson c" and m: "0 \<le> m_accel c"
    and r: "consensus_round c k st = Inr st'"
  shows "state_ok c (Suc k) st'"
    and "\<exists>d. s_diff_of st' = push_hist (min (m_accel c) (int k)) (s_diff_of st) d"
    and "list_all2 (\<lambda>ew ew'. \<exists>w w' d. ew = Inr w \<and> ew' = Inr w'
            \<and> y_diff w' = push_hist (min (m_accel c) (int k)) (y_diff w) d)
          (workers_of st) (workers_of st')"
proof -
  let ?mk = "min (m_accel c) (int k)"
  let ?n = "hist_len c k" and ?n' = "hist_len c (Suc k)"
  from consensus_round_InrD [OF r] an obtain halves mt zn where
    rh: "recv_all (map run_half (workers_of st)) = Inr halves" and
    wp: "w_project (map fst halves) (z_of st) = Inr (mt, zn)" and
    ar: "accel_round c k st (map snd halves) mt zn = Inr st'"
    by auto
  from accel_round_InrD [OF ar] obtain y_hist diff r0 resid' s' where
    rp: "recv_all (map (worker_accel (m_accel c) k mt zn) (map snd halves)) = Inr y_hist" and
    dz: "diff_z (var_all (p_list c)) (z_of st) zn ([], []) = Inr (diff, r0)" and
    r0: "r0 \<noteq> []" and
    us: "update_s_accel (aa_weights c (map (\<lambda>r. fst (fst r)) y_hist @ [push_hist ?mk (s_diff_of st) diff]))
           (push_hist ?mk (s_diff_of st) diff) ?mk (var_all (p_list c)) (s_of st) = Inr s'" and
    z': "z_of st' = zn" and
    sd': "s_diff_of st' = push_hist ?mk (s_diff_of st) diff" and
    ws': "workers_of st' =
            map (\<lambda>r. worker_mix (m_accel c) k
                  (aa_weights c (map (\<lambda>r. fst (fst r)) y_hist @ [push_hist ?mk (s_diff_of st) diff]))
                  (snd r)) y_hist"
    by blast
  let ?alpha = "aa_weights c (map (\<lambda>r. fst (fst r)) y_hist @ [push_hist ?mk (s_diff_of st) diff])"
  from var_all_diff_z [OF dz] r0 have kd: "fst ` set diff = set (var_all (p_list c))"
    and vne: "var_all (p_list c) \<noteq> []" by auto
  from update_s_accel_InrD [OF us vne] have al: "nat (?mk + 1) \<le> length ?alpha" .
  note hl = hist_len_step [OF an m, of k]
  from hl(2) m have pos: "0 < ?n'" by simp
  from ok have w: "list_all2 (\<lambda>p ew. worker_ok p ?n ew) (p_list c) (workers_of st)"
    and zk: "map fst (z_of st) = var_all (p_list c)"
    and sl: "length (s_diff_of st) = ?n"
    and sk: "\<forall>d\<in>set (s_diff_of st). set (var_all (p_list c)) \<subseteq> fst ` set d"
    by (simp_all add: state_ok_def)
  from rh have a: "list_all2 (\<lambda>ew h. run_half ew = Inr h) (workers_of st) halves"
    by (simp add: recv_all_map)
  from rp have b: "list_all2 (\<lambda>h r. worker_accel (m_accel c) k mt zn (snd h) = Inr r) halves y_hist"
    by (simp add: recv_all_map list_all2_map1)
  from w a b have len: "length (workers_of st) = length (p_list c)"
    "length halves = length (p_list c)" "length y_hist = length (p_list c)"
    using list_all2_lengthD [OF w] list_all2_lengthD [OF a] list_all2_lengthD [OF b] by simp_all
  have chain: "\<exists>w w3 d. workers_of st ! i = Inr w
         \<and> worker_mix (m_accel c) k ?alpha (snd (y_hist ! i)) = Inr w3
         \<and> y_diff w3 = push_hist ?mk (y_diff w) d
         \<and> worker_ok (p_list c ! i) ?n' (Inr w3)"
    if i: "i < length (p_list c)" for i
  proof -
    from w i have 1: "worker_ok (p_list c ! i) ?n (workers_of st ! i)"
      by (simp add: list_all2_conv_all_nth)
    from a i len have 2: "run_half (workers_of st ! i) = Inr (halves ! i)"
      by (simp add: list_all2_conv_all_nth)
    from b i len have 3: "worker_accel (m_accel c) k mt zn (snd (halves ! i)) = Inr (y_hist ! i)"
      by (simp add: list_all2_conv_all_nth)
    from worker_chain_accel [OF 1 2 3 hl(1) hl(2) pos] al hl(2) show ?thesis
      by fastforce
  qed
  have wok: "list_all2 (\<lambda>p ew. worker_ok p ?n' ew) (p_list c) (workers_of st')"
    unfolding ws' list_all2_conv_all_nth
  proof (intro conjI allI impI)
    show "length (p_list c) = length (map (\<lambda>r. worker_mix (m_accel c) k ?alpha (snd r)) y_hist)"
      using len by simp
  next
    fix i assume i: "i < length (p_list c)"
    from chain [OF i] i len
    show "worker_ok (p_list c ! i) ?n' (map (\<lambda>r. worker_mix (m_accel c) k ?alpha (snd r)) y_hist ! i)"
      by auto
  qed
  show "list_all2 (\<lambda>ew ew'. \<exists>w w' d. ew = Inr w \<and> ew' = Inr w'
            \<and> y_diff w' = push_hist ?mk (y_diff w) d) (workers_of st) (workers_of st')"
    unfolding ws' list_all2_conv_all_nth
  proof (intro conjI allI impI)
    show "length (workers_of st) = length (map (\<lambda>r. worker_mix (m_accel c) k ?alpha (snd r)) y_hist)"
      using len by simp
  next
    fix i assume "i < length (workers_of st)"
    with len have i: "i < length (p_list c)" by simp
    from chain [OF i] i len
    show "\<exists>w w' d. workers_of st ! i = Inr w
            \<and> map (\<lambda>r. worker_mix (m_accel c) k ?alpha (snd r)) y_hist ! i = Inr w'
            \<and> y_diff w' = push_hist ?mk (y_diff w) d"
      by auto
  qed
  from sd' show "\<exists>d. s_diff_of st' = push_hist ?mk (s_diff_of st) d" by blast
  have "length (s_diff_of st') = ?n'"
    using sd' sl hl(1) by (auto simp: push_hist_length split: if_splits)
  moreover have "\<forall>d\<in>set (s_diff_of st'). set (var_all (p_list c)) \<subseteq> fst ` set d"
  proof
    fix d assume "d \<in> set (s_diff_of st')"
    with sd' push_hist_set [of ?mk "s_diff_of st" diff] have "d = diff \<or> d \<in> set (s_diff_of st)"
      by auto
    with kd sk show "set (var_all (p_list c)) \<subseteq> fst ` set d" by auto
  qed
  moreover from w_project_keys [OF wp] zk z' have "map fst (z_of st') = var_all (p_list c)"
    by simp
  ultimately show "state_ok c (Suc k) st'"
    using wok by (simp add: state_ok_def)
qed

section \<open>A round of a well-formed run raises nothing\<close>

lemma recv_all_ok:
  "\<forall>x\<in>set xs. \<exists>y. f x = Inr y \<Longrightarrow> \<exists>ys. recv_all (map f xs) = Inr ys"
proof (induction xs)
  case Nil
  then show ?case by simp
next
  case (Cons x xs)
  from Cons.prems obtain y where "f x = Inr y" by auto
  moreover from Cons obtain ys where "recv_all (map f xs) = Inr ys" by auto
  ultimately show ?case by simp
qed

lemma list_all2_Union:
  "list_all2 (\<lambda>x y. f x = g y) xs ys \<Longrightarrow> (\<Union>x\<in>set xs. f x) = (\<Union>y\<in>set ys. g y)"
  by (induction rule: list_all2_induct) auto

lemma list_all2_setD2:
  "list_all2 P xs ys \<Longrightarrow> y \<in> set ys \<Longrightarrow> \<exists>x\<in>set xs. P x y"
  by (induction rule: list_all2_induct) auto

lemma state_ok_init: "state_ok c 0 (init_state c)"
  by (simp add: state_ok_def init_state_def hist_len_def list_all2_map2 worker_ok_def
      comp_def list.rel_refl)

lemma halves_ok:
  assumes ok: "state_ok c k st" and so: "statuses_ok st"
  shows "\<exists>halves. recv_all (map run_half (workers_of st)) = Inr halves
           \<and> list_all2 (\<lambda>p h. \<exists>ew. worker_ok p (hist_len c k) ew
                                  \<and> run_half ew = Inr h) (p_list c) halves"
proof -
  from ok have w: "list_all2 (\<lambda>p ew. worker_ok p (hist_len c k) ew) (p_list c) (workers_of st)"
    by (simp add: state_ok_def)
  have "\<forall>ew\<in>set (workers_of st). \<exists>h. run_half ew = Inr h"
  proof
    fix ew assume "ew \<in> set (workers_of st)"
    from list_all2_setD2 [OF w this] obtain p where "worker_ok p (hist_len c k) ew" by blast
    then obtain w where ew: "ew = Inr w"
      by (cases ew) (simp_all add: worker_ok_def)
    with so \<open>ew \<in> set (workers_of st)\<close> have "fst (prox w (vmap w)) \<notin> set INF_OR_UNB"
      by (simp add: statuses_ok_def)
    from worker_half_ok [OF this] ew show "\<exists>h. run_half ew = Inr h"
      by (simp add: run_half_def)
  qed
  from recv_all_ok [OF this] obtain halves where
    rh: "recv_all (map run_half (workers_of st)) = Inr halves" by blast
  then have a: "list_all2 (\<lambda>ew h. run_half ew = Inr h) (workers_of st) halves"
    by (simp add: recv_all_map)
  have "list_all2 (\<lambda>p h. \<exists>ew. worker_ok p (hist_len c k) ew \<and> run_half ew = Inr h)
          (p_list c) halves"
    by (rule list_all2_compose [OF w a]) blast
  with rh show ?thesis by blast
qed

lemma projection_ok:
  assumes ok: "state_ok c k st" and so: "nodes_ok c"
    and hs: "list_all2 (\<lambda>p h. \<exists>ew. worker_ok p (hist_len c k) ew
                                  \<and> run_half ew = Inr h) (p_list c) halves"
  shows "\<exists>mt zn. w_project (map fst halves) (z_of st) = Inr (mt, zn)
           \<and> map fst mt = var_all (p_list c) \<and> map fst zn = var_all (p_list c)"
proof -
  from ok have zk: "map fst (z_of st) = var_all (p_list c)" by (simp add: state_ok_def)
  then have zs: "fst ` set (z_of st) = set (var_all (p_list c))" by (metis set_map)
  have hk: "list_all2 (\<lambda>p h. set (variables p) = fst ` set (snd (fst h))
                           \<and> (fst (fst h) \<notin> set INF_OR_UNB \<or> variables p = []))
              (p_list c) halves"
  proof (rule list_all2_mono [OF hs])
    fix p h
    assume "\<exists>ew. worker_ok p (hist_len c k) ew \<and> run_half ew = Inr h"
    then obtain ew where "worker_ok p (hist_len c k) ew" "run_half ew = Inr h"
      by blast
    from worker_chain_half [OF this] obtain w where
      "ew = Inr w"
      "fst (fst h) \<notin> set INF_OR_UNB \<or> variables p = []"
      "map fst (snd (fst h)) = map fst (prox_step p)"
      by blast
    moreover from this(3) have "fst ` set (snd (fst h)) = fst ` set (prox_step p)"
      by (metis set_map)
    ultimately show "set (variables p) = fst ` set (snd (fst h))
                   \<and> (fst (fst h) \<notin> set INF_OR_UNB \<or> variables p = [])"
      by (auto simp: set_prox_step)
  qed
  have 1: "\<forall>(st', y_half)\<in>set (map fst halves).
             st' \<notin> set INF_OR_UNB \<and> fst ` set y_half \<subseteq> fst ` set (z_of st)"
  proof (clarify, intro conjI)
    fix st' y_half assume "(st', y_half) \<in> set (map fst halves)"
    then obtain h where h: "h \<in> set halves" "fst h = (st', y_half)" by auto
    from list_all2_setD2 [OF hk h(1)] h(2) obtain p where
      p: "p \<in> set (p_list c)" "set (variables p) = fst ` set y_half"
         "st' \<notin> set INF_OR_UNB \<or> variables p = []"
      by auto
    from so p(1,3) show "st' \<notin> set INF_OR_UNB"
      by (auto simp: nodes_ok_def list_all_iff)
    from p(1,2) show "fst ` set y_half \<subseteq> fst ` set (z_of st)"
      by (auto simp: zs set_var_all)
  qed
  from hk have "list_all2 (\<lambda>p h. set (variables p) = fst ` set (snd (fst h))) (p_list c) halves"
    by (rule list_all2_mono) blast
  from list_all2_Union [OF this]
  have "(\<Union>p\<in>set (p_list c). set (variables p)) = (\<Union>h\<in>set halves. fst ` set (snd (fst h)))" .
  then have 2: "(\<Union>(st', y_half) \<in> set (map fst halves). fst ` set y_half) = fst ` set (z_of st)"
    by (simp add: zs set_var_all case_prod_unfold) 
  from w_project_ok [OF 1 2] obtain r where r: "w_project (map fst halves) (z_of st) = Inr r"
    by blast
  obtain mt zn where "r = (mt, zn)" by (cases r)
  with r w_project_keys [of "map fst halves" "z_of st" mt zn] zk show ?thesis by simp
qed

lemma var_all_nonempty: "nodes_ok c \<Longrightarrow> var_all (p_list c) \<noteq> []"
proof -
  assume so: "nodes_ok c"
  then obtain p ps where p: "p_list c = p # ps" by (cases "p_list c") (auto simp: nodes_ok_def)
  with so have "variables p \<noteq> []" by (simp add: nodes_ok_def)
  then obtain x where "x \<in> set (variables p)" by (cases "variables p") auto
  with p have "x \<in> set (var_all (p_list c))" by (auto simp: set_var_all)
  then show ?thesis by auto
qed

lemma half_ready:
  assumes so: "nodes_ok c"
    and hs: "list_all2 (\<lambda>p h. \<exists>ew. worker_ok p n ew
                                  \<and> run_half ew = Inr h) (p_list c) halves"
    and h: "h \<in> set halves"
  shows "\<exists>p. worker_ok p n (Inr (snd (snd h))) \<and> map fst (fst (snd h)) = map fst (prox_step p)
            \<and> fst ` set (prox_step p) \<subseteq> set (var_all (p_list c)) \<and> variables p \<noteq> []"
proof -
  from list_all2_setD2 [OF hs h] obtain p ew where
    p: "p \<in> set (p_list c)" and ok: "worker_ok p n ew" and
    mh: "run_half ew = Inr h" by blast
  from worker_chain_half [OF ok mh]
  have "worker_ok p n (Inr (snd (snd h)))" "map fst (fst (snd h)) = map fst (prox_step p)"
    by blast+
  moreover from p have "fst ` set (prox_step p) \<subseteq> set (var_all (p_list c))"
    by (auto simp: set_prox_step set_var_all)
  moreover from so p have "variables p \<noteq> []" by (auto simp: nodes_ok_def list_all_iff)
  ultimately show ?thesis by blast
qed

lemma plain_round_progress:
  assumes ok: "state_ok c k st" and so: "nodes_ok c" and kl: "k < length (resid_of st)"
    and hs: "list_all2 (\<lambda>p h. \<exists>ew. worker_ok p (hist_len c k) ew
                                  \<and> run_half ew = Inr h) (p_list c) halves"
    and mt: "map fst mt = var_all (p_list c)" and zn: "map fst zn = var_all (p_list c)"
  shows "\<exists>st'. plain_round c k st (map snd halves) mt zn = Inr st'"
proof -
  from ok have zk: "map fst (z_of st) = var_all (p_list c)" by (simp add: state_ok_def)
  from zk mt zn have ks: "fst ` set (z_of st) = set (var_all (p_list c))"
    "fst ` set mt = set (var_all (p_list c))" "fst ` set zn = set (var_all (p_list c))"
    by (metis set_map)+
  from update_s_ok [of "var_all (p_list c)" "z_of st" zn "s_of st" "[]"] ks obtain res where
    "update_s (var_all (p_list c)) (z_of st) zn (s_of st, []) = Inr res" by auto
  moreover obtain s' r0 where "res = (s', r0)" by (cases res)
  ultimately have us: "update_s (var_all (p_list c)) (z_of st) zn (s_of st, []) = Inr (s', r0)"
    by simp
  from update_s_length [OF us] var_all_nonempty [OF so] have r0: "r0 \<noteq> []" by auto
  have "\<forall>h\<in>set (map snd halves). \<exists>r. worker_plain mt zn h = Inr r"
  proof
    fix hw assume "hw \<in> set (map snd halves)"
    then obtain h where h: "h \<in> set halves" "hw = snd h" by auto
    from half_ready [OF so hs h(1)] obtain p where
      "worker_ok p (hist_len c k) (Inr (snd (snd h)))"
      "map fst (fst (snd h)) = map fst (prox_step p)"
      "fst ` set (prox_step p) \<subseteq> set (var_all (p_list c))" "variables p \<noteq> []" by blast
    from worker_plain_ok [OF this(1,2) _ _ this(4), of mt zn] this(3) ks h(2)
    show "\<exists>r. worker_plain mt zn hw = Inr r" by simp
  qed
  from recv_all_ok [OF this] obtain replies where
    "recv_all (map (worker_plain mt zn) (map snd halves)) = Inr replies" by blast
  with us r0 kl show ?thesis
    by (simp add: plain_round_def concatenate_def setitem_def)
qed

lemma worker_accel_len:
  assumes "worker_ok p n (Inr w1)" and "worker_accel m k mt zn (xh, w1) = Inr r"
    and "(if min m (int k) + 1 < int n + 1 then n else n + 1) = n'"
  shows "length (fst (fst r)) = n'"
proof -
  from assms(2) have "worker_accel m k mt zn (xh, w1) = Inr ((fst (fst r), snd (fst r)), snd r)"
    by simp
  from worker_ok_accel [OF assms(1) this] obtain d where
    "fst (fst r) = push_hist (min m (int k)) (y_diff w1) d" by auto
  moreover from assms(1) have "length (y_diff w1) = n" by (simp add: worker_ok_def)
  ultimately show ?thesis using assms(3)
    by (auto simp: push_hist_length split: if_splits)
qed

lemma accel_round_progress:
  assumes ok: "state_ok c k st" and so: "nodes_ok c" and kl: "k < length (resid_of st)"
    and an: "anderson c" and m: "0 \<le> m_accel c" and mx: "mixer_ok c"
    and hs: "list_all2 (\<lambda>p h. \<exists>ew. worker_ok p (hist_len c k) ew
                                  \<and> run_half ew = Inr h) (p_list c) halves"
    and mt: "map fst mt = var_all (p_list c)" and zn: "map fst zn = var_all (p_list c)"
  shows "\<exists>st'. accel_round c k st (map snd halves) mt zn = Inr st'"
proof -
  let ?mk = "min (m_accel c) (int k)"
  let ?n = "hist_len c k" and ?n' = "hist_len c (Suc k)"
  note hl = hist_len_step [OF an m, of k]
  from ok have zk: "map fst (z_of st) = var_all (p_list c)"
    and sl: "length (s_diff_of st) = ?n"
    and sk: "\<forall>d\<in>set (s_diff_of st). set (var_all (p_list c)) \<subseteq> fst ` set d"
    by (simp_all add: state_ok_def)
  from zk mt zn have ks: "fst ` set (z_of st) = set (var_all (p_list c))"
    "fst ` set mt = set (var_all (p_list c))" "fst ` set zn = set (var_all (p_list c))"
    by (metis set_map)+
  have "\<forall>h\<in>set (map snd halves). \<exists>r. worker_accel (m_accel c) k mt zn h = Inr r"
  proof
    fix hw assume "hw \<in> set (map snd halves)"
    then obtain h where h: "h \<in> set halves" "hw = snd h" by auto
    from half_ready [OF so hs h(1)] obtain p where
      "worker_ok p ?n (Inr (snd (snd h)))"
      "map fst (fst (snd h)) = map fst (prox_step p)"
      "fst ` set (prox_step p) \<subseteq> set (var_all (p_list c))" "variables p \<noteq> []" by blast
    from worker_accel_ok [OF this(1,2) _ _ this(4), of mt zn "m_accel c" k] this(3) ks h(2)
    show "\<exists>r. worker_accel (m_accel c) k mt zn hw = Inr r" by simp
  qed
  from recv_all_ok [OF this] obtain y_hist where
    rp: "recv_all (map (worker_accel (m_accel c) k mt zn) (map snd halves)) = Inr y_hist" by blast
  then have b: "list_all2 (\<lambda>h r. worker_accel (m_accel c) k mt zn (snd h) = Inr r) halves y_hist"
    by (simp add: recv_all_map list_all2_map1)
  from so list_all2_lengthD [OF hs] list_all2_lengthD [OF b] have yne: "y_hist \<noteq> []"
    by (auto simp: nodes_ok_def)
  have wl: "\<forall>r\<in>set y_hist. length (fst (fst r)) = ?n'"
  proof
    fix r assume "r \<in> set y_hist"
    from list_all2_setD2 [OF b this] obtain h where
      h: "h \<in> set halves" "worker_accel (m_accel c) k mt zn (snd h) = Inr r" by blast
    from half_ready [OF so hs h(1)] obtain p where
      p: "worker_ok p ?n (Inr (snd (snd h)))" by blast
    from h(2) have "worker_accel (m_accel c) k mt zn (fst (snd h), snd (snd h)) = Inr r" by simp
    from worker_accel_len [OF p this hl(1)] show "length (fst (fst r)) = ?n'" .
  qed
  from diff_z_ok [of "var_all (p_list c)" "z_of st" zn "[]" "[]"] ks obtain res where
    "diff_z (var_all (p_list c)) (z_of st) zn ([], []) = Inr res" by auto
  moreover obtain diff r0 where "res = (diff, r0)" by (cases res)
  ultimately have dz: "diff_z (var_all (p_list c)) (z_of st) zn ([], []) = Inr (diff, r0)"
    by simp
  from var_all_diff_z [OF dz] var_all_nonempty [OF so]
  have kd: "fst ` set diff = set (var_all (p_list c))" and r0: "r0 \<noteq> []" by auto
  let ?sd = "push_hist ?mk (s_diff_of st) diff"
  let ?ws = "map (\<lambda>r. fst (fst r)) y_hist @ [?sd]"
  let ?alpha = "aa_weights c ?ws"
  have sdl: "length ?sd = ?n'"
    using sl hl(1) by (auto simp: push_hist_length split: if_splits)
  from hl(2) m have pos: "0 < ?n'" by simp
  with sdl have sne: "?sd \<noteq> []" by auto
  have "list_all (\<lambda>w. length w = length (last ?ws)) ?ws"
    using wl sdl by (auto simp: list_all_iff)
  with mx have al: "?n' \<le> length ?alpha"
    unfolding mixer_ok_def using sdl by (metis last_snoc snoc_eq_iff_butlast)
  have skd: "\<forall>d\<in>set ?sd. set (var_all (p_list c)) \<subseteq> fst ` set d"
  proof
    fix d assume "d \<in> set ?sd"
    with push_hist_set [of ?mk "s_diff_of st" diff] have "d = diff \<or> d \<in> set (s_diff_of st)"
      by auto
    with kd sk show "set (var_all (p_list c)) \<subseteq> fst ` set d" by auto
  qed
  have "\<forall>key\<in>set (var_all (p_list c)). \<exists>r. weighted_update ?alpha ?sd ?mk key = Inr r"
  proof
    fix key assume "key \<in> set (var_all (p_list c))"
    with skd have "\<forall>d\<in>set ?sd. key \<in> fst ` set d" by auto
    from weighted_update_ok [OF sne this] al sdl hl(2)
    show "\<exists>r. weighted_update ?alpha ?sd ?mk key = Inr r" by simp
  qed
  from update_s_accel_ok [OF this] obtain s' where
    "update_s_accel ?alpha ?sd ?mk (var_all (p_list c)) (s_of st) = Inr s'" by blast
  with rp yne dz r0 kl show ?thesis
    by (simp add: accel_round_def concatenate_def setitem_def Let_def)
qed

lemma round_progress:
  assumes ok: "state_ok c k st" and so: "nodes_ok c" and ss: "statuses_ok st"
    and kl: "k < length (resid_of st)"
    and m: "0 \<le> m_accel c" and mx: "anderson c \<longrightarrow> mixer_ok c"
  shows "\<exists>st'. consensus_round c k st = Inr st'"
proof -
  from halves_ok [OF ok ss] obtain halves where
    rh: "recv_all (map run_half (workers_of st)) = Inr halves" and
    hs: "list_all2 (\<lambda>p h. \<exists>ew. worker_ok p (hist_len c k) ew
                                  \<and> run_half ew = Inr h) (p_list c) halves"
    by blast
  from projection_ok [OF ok so hs] obtain mt zn where
    wp: "w_project (map fst halves) (z_of st) = Inr (mt, zn)" and
    mt: "map fst mt = var_all (p_list c)" and zn: "map fst zn = var_all (p_list c)"
    by blast
  show ?thesis
  proof (cases "anderson c")
    case True
    with mx have "mixer_ok c" by simp
    from accel_round_progress [OF ok so kl True m this hs mt zn] rh wp True show ?thesis
      by (simp add: consensus_round_def)
  next
    case False
    from plain_round_progress [OF ok so kl hs mt zn] rh wp False show ?thesis
      by (simp add: consensus_round_def)
  qed
qed

lemma round_preserves:
  assumes "state_ok c k st" and "0 \<le> m_accel c" and "consensus_round c k st = Inr st'"
  shows "state_ok c (Suc k) st'"
proof (cases "anderson c")
  case True
  from state_ok_accel_step(1) [OF assms(1) True assms(2,3)] show ?thesis .
next
  case False
  from state_ok_plain_step [OF assms(1) False assms(3)] show ?thesis .
qed

section \<open>The loop\<close>

lemma take_eq_nth: "take n xs = take n ys \<Longrightarrow> i < n \<Longrightarrow> xs ! i = ys ! i"
  by (metis nth_take)

lemma loop_spec:
  "consensus_loop c k st = Inr (k', st') \<Longrightarrow>
     k < k' \<and> k' \<le> length (resid_of st) \<and> length (resid_of st') = length (resid_of st)
     \<and> take k (resid_of st') = take k (resid_of st)
     \<and> (max_iter c \<le> int k' \<or> resid_of st' ! (k' - 1) \<le> eps_stop c * resid_of st' ! 0)
     \<and> (\<forall>j. k < j \<and> j < k' \<longrightarrow>
           \<not> (max_iter c \<le> int j \<or> resid_of st' ! (j - 1) \<le> eps_stop c * resid_of st' ! 0))"
proof (induction c k st arbitrary: k' st' rule: consensus_loop.induct)
  case (1 c k st)
  from "1.prems" obtain st1 where r: "consensus_round c k st = Inr st1"
    by (subst (asm) consensus_loop.simps) (auto split: sum.splits)
  from consensus_round_resid [OF r] obtain x where
    kl: "k < length (resid_of st)" and r1: "resid_of st1 = (resid_of st)[k := x]" by blast
  let ?stop = "max_iter c \<le> int (k + 1) \<or> resid_of st1 ! k \<le> eps_stop c * resid_of st1 ! 0"
  show ?case
  proof (cases ?stop)
    case True
    with "1.prems" r have "k' = k + 1" "st' = st1"
      by (subst (asm) consensus_loop.simps, simp)+
    with True kl r1 show ?thesis by auto
  next
    case False
    with "1.prems" r have l: "consensus_loop c (k + 1) st1 = Inr (k', st')"
      by (subst (asm) consensus_loop.simps) simp
    from "1.IH" [OF r False l] have
      a: "k + 1 < k'" and b: "k' \<le> length (resid_of st1)"
      and c: "length (resid_of st') = length (resid_of st1)"
      and d: "take (k + 1) (resid_of st') = take (k + 1) (resid_of st1)"
      and e: "max_iter c \<le> int k' \<or> resid_of st' ! (k' - 1) \<le> eps_stop c * resid_of st' ! 0"
      and f: "\<forall>j. k + 1 < j \<and> j < k' \<longrightarrow>
           \<not> (max_iter c \<le> int j \<or> resid_of st' ! (j - 1) \<le> eps_stop c * resid_of st' ! 0)"
      by blast+
    from d have "take k (take (k + 1) (resid_of st')) = take k (take (k + 1) (resid_of st1))"
      by simp
    then have t: "take k (resid_of st') = take k (resid_of st)"
      by (simp add: r1 min_def)
    from take_eq_nth [OF d, of k] take_eq_nth [OF d, of 0]
    have n: "resid_of st' ! k = resid_of st1 ! k" "resid_of st' ! 0 = resid_of st1 ! 0"
      by simp_all
    have g: "\<forall>j. k < j \<and> j < k' \<longrightarrow>
           \<not> (max_iter c \<le> int j \<or> resid_of st' ! (j - 1) \<le> eps_stop c * resid_of st' ! 0)"
    proof (intro allI impI)
      fix j assume j: "k < j \<and> j < k'"
      show "\<not> (max_iter c \<le> int j \<or> resid_of st' ! (j - 1) \<le> eps_stop c * resid_of st' ! 0)"
      proof (cases "j = k + 1")
        case True
        with False n show ?thesis by simp
      next
        case False
        with j have "k + 1 < j \<and> j < k'" by simp
        with f show ?thesis by blast
      qed
    qed
    from a b c t e g r1 show ?thesis by simp
  qed
qed

lemma loop_returns:
  "state_ok c k st \<Longrightarrow> running c k \<Longrightarrow> rounds c k = Inr st \<Longrightarrow> nodes_ok c \<Longrightarrow> solves_ok c
     \<Longrightarrow> 0 \<le> m_accel c \<Longrightarrow> (anderson c \<longrightarrow> mixer_ok c)
     \<Longrightarrow> length (resid_of st) = nat (max_iter c) \<Longrightarrow> int k < max_iter c
     \<Longrightarrow> \<exists>res. consensus_loop c k st = Inr res"
proof (induction c k st rule: consensus_loop.induct)
  case (1 c k st)
  from "1.prems" have kl: "k < length (resid_of st)" by simp
  from "1.prems"(2,3,5) have ss: "statuses_ok st" by (auto simp: solves_ok_def)
  from round_progress [OF "1.prems"(1,4) ss kl "1.prems"(6,7)] obtain st1 where
    r: "consensus_round c k st = Inr st1" by blast
  from round_preserves [OF "1.prems"(1,6) r] have ok1: "state_ok c (Suc k) st1" .
  from r "1.prems"(3) have r1: "rounds c (Suc k) = Inr st1" by simp
  from consensus_round_resid [OF r] "1.prems"(8) have len: "length (resid_of st1) = nat (max_iter c)"
    by auto
  let ?stop = "max_iter c \<le> int (k + 1) \<or> resid_of st1 ! k \<le> eps_stop c * resid_of st1 ! 0"
  show ?case
  proof (cases ?stop)
    case True
    with r show ?thesis by (subst consensus_loop.simps) simp
  next
    case False
    then have lt: "int (k + 1) < max_iter c" by simp
    from False r1 "1.prems"(2) have run: "running c (k + 1)" by simp
    from "1.IH" [OF r False] ok1 run r1 "1.prems"(4,5,6,7) len lt
    obtain res where "consensus_loop c (k + 1) st1 = Inr res" by auto
    with r False show ?thesis by (subst consensus_loop.simps) simp
  qed
qed

lemma rounds_state_ok: "0 \<le> m_accel c \<Longrightarrow> rounds c n = Inr st \<Longrightarrow> state_ok c n st"
proof (induction n arbitrary: st)
  case 0
  then show ?case using state_ok_init [of c] by auto
next
  case (Suc n)
  from Suc.prems(2) obtain st0 where
    r: "rounds c n = Inr st0" and s: "consensus_round c n st0 = Inr st"
    by (auto split: sum.splits)
  from round_preserves [OF Suc.IH [OF Suc.prems(1) r] Suc.prems(1) s] show ?case .
qed

lemma solves_ok_always:
  assumes "0 \<le> m_accel c" and "\<forall>p\<in>set (p_list c). \<forall>v. fst (solve p v) \<notin> set INF_OR_UNB"
  shows "solves_ok c"
  unfolding solves_ok_def statuses_ok_def
proof (intro allI impI)
  fix k st w
  assume a: "running c k \<and> rounds c k = Inr st" and w: "Inr w \<in> set (workers_of st)"
  from rounds_state_ok [OF assms(1)] a
  have "list_all2 (\<lambda>p ew. worker_ok p (hist_len c k) ew) (p_list c) (workers_of st)"
    by (simp add: state_ok_def)
  from list_all2_setD2 [OF this w] obtain p where
    "p \<in> set (p_list c)" "worker_ok p (hist_len c k) (Inr w)" by blast
  with assms(2) show "fst (prox w (vmap w)) \<notin> set INF_OR_UNB"
    by (simp add: worker_ok_def)
qed

lemma loop_rounds:
  "consensus_loop c k st = Inr (k', st') \<Longrightarrow> rounds c k = Inr st \<Longrightarrow> rounds c k' = Inr st'"
proof (induction c k st arbitrary: k' st' rule: consensus_loop.induct)
  case (1 c k st)
  from "1.prems"(1) obtain st1 where r: "consensus_round c k st = Inr st1"
    by (subst (asm) consensus_loop.simps) (auto split: sum.splits)
  with "1.prems"(2) have r1: "rounds c (k + 1) = Inr st1" by simp
  let ?stop = "max_iter c \<le> int (k + 1) \<or> resid_of st1 ! k \<le> eps_stop c * resid_of st1 ! 0"
  show ?case
  proof (cases ?stop)
    case True
    with "1.prems"(1) r have "k' = k + 1" "st' = st1"
      by (subst (asm) consensus_loop.simps, simp)+
    with r1 show ?thesis by simp
  next
    case False
    with "1.prems"(1) r have "consensus_loop c (k + 1) st1 = Inr (k', st')"
      by (subst (asm) consensus_loop.simps) simp
    from "1.IH" [OF r False this r1] show ?thesis .
  qed
qed

text \<open>
  Claim C8. In an accelerated run (with the \<open>m_accel >= 0\<close> that the entry point
  enforces), after round \<open>k\<close> the coordinator's window and the window of every worker,
  all of them alive, have exactly \<open>min(m_accel, k) + 1\<close> entries; each is the window
  before the round with the round's residual appended, and with its oldest entry removed
  exactly when \<open>k > m_accel\<close>.
\<close>

theorem history_windows:
  assumes "anderson c" and "0 \<le> m_accel c" and "rounds c (Suc k) = Inr st'"
  shows "\<exists>st. rounds c k = Inr st
       \<and> length (s_diff_of st') = nat (min (m_accel c) (int k)) + 1
       \<and> (\<exists>d. s_diff_of st' =
                (if m_accel c < int k then tl (s_diff_of st @ [d]) else s_diff_of st @ [d]))
       \<and> list_all2 (\<lambda>ew ew'. \<exists>w w' d. ew = Inr w \<and> ew' = Inr w'
              \<and> length (y_diff w') = nat (min (m_accel c) (int k)) + 1
              \<and> y_diff w' = (if m_accel c < int k then tl (y_diff w @ [d]) else y_diff w @ [d]))
            (workers_of st) (workers_of st')"
proof -
  let ?mk = "min (m_accel c) (int k)"
  from assms(3) obtain st where
    r: "rounds c k = Inr st" and s: "consensus_round c k st = Inr st'"
    by (auto split: sum.splits)
  from rounds_state_ok [OF assms(2) r] have ok: "state_ok c k st" .
  note step = state_ok_accel_step [OF ok assms(1,2) s]
  note hl = hist_len_step [OF assms(1,2), of k]
  from assms(2) hl(2) have n': "hist_len c (Suc k) = nat ?mk + 1" by (simp add: nat_add_distrib)
  from step(1) n' have l1: "length (s_diff_of st') = nat ?mk + 1"
    by (simp add: state_ok_def)
  from ok have sl: "length (s_diff_of st) = hist_len c k"
    and w: "list_all2 (\<lambda>p ew. worker_ok p (hist_len c k) ew) (p_list c) (workers_of st)"
    by (simp_all add: state_ok_def)
  from step(1) have w': "list_all2 (\<lambda>p ew. worker_ok p (hist_len c (Suc k)) ew) (p_list c) (workers_of st')"
    by (simp add: state_ok_def)
  from step(2) obtain d where "s_diff_of st' = push_hist ?mk (s_diff_of st) d" by blast
  with sl hl(3) have l2: "\<exists>d. s_diff_of st' =
      (if m_accel c < int k then tl (s_diff_of st @ [d]) else s_diff_of st @ [d])"
    by (auto simp: push_hist_evict)
  have l3: "list_all2 (\<lambda>ew ew'. \<exists>w w' d. ew = Inr w \<and> ew' = Inr w'
              \<and> length (y_diff w') = nat ?mk + 1
              \<and> y_diff w' = (if m_accel c < int k then tl (y_diff w @ [d]) else y_diff w @ [d]))
            (workers_of st) (workers_of st')"
    unfolding list_all2_conv_all_nth
  proof (intro conjI allI impI)
    from step(3) show "length (workers_of st) = length (workers_of st')"
      by (rule list_all2_lengthD)
  next
    fix i assume i: "i < length (workers_of st)"
    with step(3) obtain wi wi' d where
      e: "workers_of st ! i = Inr wi" "workers_of st' ! i = Inr wi'"
         "y_diff wi' = push_hist ?mk (y_diff wi) d"
      by (auto simp: list_all2_conv_all_nth)
    from w i e(1) have "length (y_diff wi) = hist_len c k"
      by (auto simp: list_all2_conv_all_nth worker_ok_def)
    with e(3) hl(3) have ev: "y_diff wi' =
        (if m_accel c < int k then tl (y_diff wi @ [d]) else y_diff wi @ [d])"
      by (auto simp: push_hist_evict)
    from w w' i e(2) have "length (y_diff wi') = hist_len c (Suc k)"
      by (auto simp: list_all2_conv_all_nth worker_ok_def)
    with n' ev e(1,2)
    show "\<exists>w w' d. workers_of st ! i = Inr w \<and> workers_of st' ! i = Inr w'
              \<and> length (y_diff w') = nat ?mk + 1
              \<and> y_diff w' = (if m_accel c < int k then tl (y_diff w @ [d]) else y_diff w @ [d])"
      by auto
  qed
  from r l1 l2 l3 show ?thesis by blast
qed

theorem history_windows_witness:
  "anderson (run_cfg two_nodes True 1 100) \<and> 0 \<le> m_accel (run_cfg two_nodes True 1 100)
   \<and> map_sum id windows_of (rounds (run_cfg two_nodes True 1 100) 2)
       = Inr ([[(0, - (8/3))], [(0, - (4/3))]],
              [Inr [[(0, - (5/3))], [(0, - 3)]], Inr [[(0, 1/3)], [(0, - 1)]]])
   \<and> map_sum id windows_of (rounds (run_cfg two_nodes True 1 100) 3)
       = Inr ([[(0, - (4/3))], [(0, - (8/9))]],
              [Inr [[(0, - 3)], [(0, - (35/9))]], Inr [[(0, - 1)], [(0, - (17/9))]]])
   \<and> (\<exists>st st'. rounds (run_cfg two_nodes True 1 100) 2 = Inr st
         \<and> rounds (run_cfg two_nodes True 1 100) (Suc 2) = Inr st'
         \<and> length (s_diff_of st') = nat (min (m_accel (run_cfg two_nodes True 1 100)) (int 2)) + 1
         \<and> (\<exists>d. s_diff_of st' = tl (s_diff_of st @ [d])))"
proof -
  let ?c = "run_cfg two_nodes True 1 100"
  have h1: "anderson ?c" and h2: "0 \<le> m_accel ?c" and lt: "m_accel ?c < int 2"
    by (simp_all add: run_cfg_def)
  have w2: "map_sum id windows_of (rounds ?c 2)
       = Inr ([[(0, - (8/3))], [(0, - (4/3))]],
              [Inr [[(0, - (5/3))], [(0, - 3)]], Inr [[(0, 1/3)], [(0, - 1)]]])"
    by (simp add: run_defs windows_of_def numeral_2_eq_2)
  have w3: "map_sum id windows_of (rounds ?c 3)
       = Inr ([[(0, - (4/3))], [(0, - (8/9))]],
              [Inr [[(0, - 3)], [(0, - (35/9))]], Inr [[(0, - 1)], [(0, - (17/9))]]])"
    by (simp add: run_defs windows_of_def numeral_3_eq_3 numeral_2_eq_2)
  from w3 obtain st' where r3: "rounds ?c (Suc 2) = Inr st'"
    by (cases "rounds ?c 3") (simp_all add: numeral_3_eq_3)
  from history_windows [OF h1 h2 r3] lt obtain st where
    "rounds ?c 2 = Inr st"
    "length (s_diff_of st') = nat (min (m_accel ?c) (int 2)) + 1"
    "\<exists>d. s_diff_of st' = tl (s_diff_of st @ [d])"
    by auto
  with h1 h2 w2 w3 r3 show ?thesis by blast
qed

text \<open>
  Claim C3, amended. For \<open>max_iter >= 1\<close> and \<open>m_accel >= 0\<close>, with at least one
  problem and at least one variable in every problem, when every local solve of the run
  returns a status other than infeasible or unbounded and (with acceleration) the mixer
  returns at least one weight per window entry whenever its windows have one common
  length, the run returns normally with all workers terminated. The number \<open>k\<close> of
  rounds is at least 1 and at most \<open>max_iter\<close>; it is the first \<open>k >= 1\<close> with
  \<open>k >= max_iter\<close> or \<open>resid[k-1] <= eps_stop * resid[0]\<close>; and the result carries
  \<open>k\<close> and the first \<open>k\<close> residuals.
\<close>

theorem consensus_returns:
  assumes "1 \<le> max_iter c" and "0 \<le> m_accel c"
    and "p_list c \<noteq> []" and "\<forall>p\<in>set (p_list c). variables p \<noteq> []"
    and "solves_ok c" and "anderson c \<longrightarrow> mixer_ok c"
  shows "\<exists>r. consensus c = (Inr r, \<lparr>started = length (p_list c), terminated = True\<rparr>)
           \<and> 1 \<le> num_iters r \<and> int (num_iters r) \<le> max_iter c
           \<and> length (residuals r) = num_iters r
           \<and> (max_iter c \<le> int (num_iters r)
                \<or> residuals r ! (num_iters r - 1) \<le> eps_stop c * residuals r ! 0)
           \<and> (\<forall>j. 1 \<le> j \<and> j < num_iters r \<longrightarrow>
                 \<not> (max_iter c \<le> int j \<or> residuals r ! (j - 1) \<le> eps_stop c * residuals r ! 0))"
proof -
  have len: "length (resid_of (init_state c)) = nat (max_iter c)"
    by (simp add: init_state_def)
  from assms(1) have "int 0 < max_iter c" by simp
  moreover from assms(3,4) have "nodes_ok c" by (simp add: nodes_ok_def list_all_iff)
  moreover have "running c 0" "rounds c 0 = Inr (init_state c)" by simp_all
  ultimately obtain res where "consensus_loop c 0 (init_state c) = Inr res"
    using loop_returns [OF state_ok_init _ _ _ assms(5,2,6) len] by blast
  moreover obtain k st where "res = (k, st)" by (cases res)
  ultimately have l: "consensus_loop c 0 (init_state c) = Inr (k, st)" by simp
  from loop_spec [OF l] len have
    a: "0 < k" and b: "k \<le> nat (max_iter c)" and c: "length (resid_of st) = nat (max_iter c)"
    and e: "max_iter c \<le> int k \<or> resid_of st ! (k - 1) \<le> eps_stop c * resid_of st ! 0"
    and f: "\<forall>j. 0 < j \<and> j < k \<longrightarrow>
           \<not> (max_iter c \<le> int j \<or> resid_of st ! (j - 1) \<le> eps_stop c * resid_of st ! 0)"
    by simp_all
  let ?r = "\<lparr>zvals = z_of st, residuals = take k (resid_of st), num_iters = k\<rparr>"
  from l assms(1,2) have "consensus c = (Inr ?r, \<lparr>started = length (p_list c), terminated = True\<rparr>)"
    by (simp add: consensus_def Let_def)
  moreover from a b c e have "max_iter c \<le> int k
      \<or> take k (resid_of st) ! (k - 1) \<le> eps_stop c * take k (resid_of st) ! 0"
    by auto
  moreover have "\<forall>j. 1 \<le> j \<and> j < k \<longrightarrow>
      \<not> (max_iter c \<le> int j \<or> take k (resid_of st) ! (j - 1) \<le> eps_stop c * take k (resid_of st) ! 0)"
    using f by auto
  ultimately show ?thesis using a b c
    by (intro exI [of _ ?r]) auto
qed

theorem consensus_returns_witness:
  "1 \<le> max_iter (run_cfg two_nodes True 1 3) \<and> 0 \<le> m_accel (run_cfg two_nodes True 1 3)
   \<and> p_list (run_cfg two_nodes True 1 3) \<noteq> []
   \<and> list_all (\<lambda>p. variables p \<noteq> []) (p_list (run_cfg two_nodes True 1 3))
   \<and> solves_ok (run_cfg two_nodes True 1 3) \<and> mixer_ok (run_cfg two_nodes True 1 3)
   \<and> (\<exists>r. consensus (run_cfg two_nodes True 1 3) = (Inr r, \<lparr>started = 2, terminated = True\<rparr>)
         \<and> 1 \<le> num_iters r \<and> num_iters r \<le> 3 \<and> length (residuals r) = num_iters r)"
proof -
  let ?c = "run_cfg two_nodes True 1 3"
  have h1: "1 \<le> max_iter ?c" and h2: "0 \<le> m_accel ?c" and n: "length (p_list ?c) = 2"
    and mi: "max_iter ?c = 3"
    by (simp_all add: run_cfg_def two_nodes_def)
  have p1: "p_list ?c \<noteq> []" and p2: "list_all (\<lambda>p. variables p \<noteq> []) (p_list ?c)"
    by (simp_all add: run_cfg_def two_nodes_def const_problem_def)
  from p2 have p2': "\<forall>p\<in>set (p_list ?c). variables p \<noteq> []" by (simp add: list_all_iff)
  have "\<forall>p\<in>set (p_list ?c). \<forall>v. fst (solve p v) \<notin> set INF_OR_UNB"
    by (simp add: run_cfg_def two_nodes_def const_problem_def INF_OR_UNB_def)
  from solves_ok_always [OF h2 this] have h3: "solves_ok ?c" .
  have h4: "mixer_ok ?c"
    by (simp add: mixer_ok_def run_cfg_def uniform_weights_def)
  then have h4': "anderson ?c \<longrightarrow> mixer_ok ?c" by simp
  from consensus_returns [OF h1 h2 p1 p2' h3 h4'] n mi obtain r where
    "consensus ?c = (Inr r, \<lparr>started = 2, terminated = True\<rparr>)"
    "1 \<le> num_iters r" "num_iters r \<le> 3" "length (residuals r) = num_iters r"
    by auto
  with h1 h2 p1 p2 h3 h4 show ?thesis by blast
qed

section \<open>The split value without acceleration\<close>

text \<open>
  Without acceleration the value \<open>s[key]\<close> accumulated by the coordinator equals
  \<open>z[key]\<close> in every round, so that the projection from \<open>z\<close> is the projection from
  \<open>s\<close>.
\<close>

lemma update_s_values:
  "update_s ks z zn (s, r) = Inr (s', r') \<Longrightarrow> distinct ks \<Longrightarrow>
     (key \<in> set ks \<longrightarrow> (\<exists>a b. map_of zn key = Some a \<and> map_of z key = Some b
                               \<and> dd_get s' 0 key = dd_get s 0 key + (a - b)))
   \<and> (key \<notin> set ks \<longrightarrow> dd_get s' 0 key = dd_get s 0 key)"
proof (induction ks arbitrary: s r)
  case Nil
  then show ?case by simp
next
  case (Cons k ks)
  from Cons.prems(1) obtain a b where
    g: "getitem zn k = Inr a" "getitem z k = Inr b" and
    u: "update_s ks z zn (AList.update k (dd_get s 0 k + (a - b)) s, r @ [b - a]) = Inr (s', r')"
    by (auto split: sum.splits)
  from g have m: "map_of zn k = Some a" "map_of z k = Some b"
    by (simp_all add: getitem_Inr_iff)
  from Cons.prems(2) have d: "distinct ks" "k \<notin> set ks" by simp_all
  from Cons.IH [OF u d(1)] m d(2) show ?case
    by (auto simp: dd_get_update)
qed

lemma plain_split_is_z:
  "\<not> anderson c \<Longrightarrow> rounds c n = Inr st \<Longrightarrow> key \<in> set (var_all (p_list c))
     \<Longrightarrow> map_of (z_of st) key = Some (dd_get (s_of st) 0 key)"
proof (induction n arbitrary: st)
  case 0
  then have "st = init_state c" by simp
  with "0.prems"(3) show ?case
    by (simp add: init_state_def dd_get_def map_of_map_restrict)
next
  case (Suc n)
  from Suc.prems(2) obtain st0 where
    r: "rounds c n = Inr st0" and s: "consensus_round c n st0 = Inr st"
    by (auto split: sum.splits)
  from consensus_round_InrD [OF s] Suc.prems(1) obtain hs mt zn where
    pr: "plain_round c n st0 hs mt zn = Inr st" by auto
  from plain_round_InrD [OF pr] obtain s' r0 where
    us: "update_s (var_all (p_list c)) (z_of st0) zn (s_of st0, []) = Inr (s', r0)" and
    st: "z_of st = zn" "s_of st = s'"
    by auto
  from update_s_values [OF us distinct_var_all, of key] Suc.prems(3) obtain a b where
    "map_of zn key = Some a" "map_of (z_of st0) key = Some b"
    "dd_get s' 0 key = dd_get (s_of st0) 0 key + (a - b)" by auto
  with Suc.IH [OF Suc.prems(1) r Suc.prems(3)] st show ?case by simp
qed


section \<open>Properties of the mixer\<close>

lemma feasible_singleton: "feasible nonneg [r] alpha \<longleftrightarrow> alpha = [1]"
proof
  assume f: "feasible nonneg [r] alpha"
  then have "length alpha = 1" by (simp add: feasible_def)
  then obtain a where a: "alpha = [a]" by (cases alpha) auto
  with f show "alpha = [1]" by (simp add: feasible_def)
next
  assume "alpha = [1]"
  then show "feasible nonneg [r] alpha" by (simp add: feasible_def)
qed

lemma is_aa_weights_singleton: "is_aa_weights nonneg [r] alpha \<longleftrightarrow> alpha = [1]"
  by (auto simp: is_aa_weights_def feasible_singleton)

lemma objective_nonneg: "0 \<le> objective window alpha"
  by (simp add: objective_def)

text \<open>
  Claim C7. Every weight vector that the mixer returns for a window has as many entries
  as the window and its entries sum to 1; for a window of one snapshot it is \<open>[1]\<close>,
  the only vector that meets the constraints.
\<close>

theorem aa_weights_sum_one:
  assumes "is_aa_weights nonneg window alpha"
  shows "length alpha = length window \<and> sum_list alpha = 1
       \<and> (length window = 1 \<longrightarrow> alpha = [1])"
proof -
  from assms have f: "feasible nonneg window alpha" by (simp add: is_aa_weights_def)
  then have l: "length alpha = length window" and s: "sum_list alpha = 1"
    by (simp_all add: feasible_def)
  have "alpha = [1]" if "length window = 1"
  proof -
    from that obtain r where "window = [r]" by (cases window) auto
    with f show ?thesis by (simp add: feasible_singleton)
  qed
  with l s show ?thesis by blast
qed

theorem aa_weights_sum_one_witness:
  "is_aa_weights True [[(0, 3::real)]] [1]
   \<and> length [[(0::key, 3::real)]] = 1
   \<and> is_aa_weights True [[(0, 1::real)], [(0, - 1)]] [1/2, 1/2]
   \<and> length [1/2, 1/2 :: real] = length [[(0::key, 1::real)], [(0, - 1)]]
   \<and> sum_list [1/2, 1/2 :: real] = 1"
proof -
  have h1: "is_aa_weights True [[(0, 3::real)]] [1]"
    by (simp add: is_aa_weights_singleton)
  have z: "objective [[(0, 1::real)], [(0, - 1)]] [1/2, 1/2] = 0"
    by (simp add: objective_def l2_norm_def)
  have h2: "is_aa_weights True [[(0, 1::real)], [(0, - 1)]] [1/2, 1/2]"
    unfolding is_aa_weights_def
  proof (intro conjI allI impI)
    show "feasible True [[(0, 1::real)], [(0, - 1)]] [1/2, 1/2]"
      by (simp add: feasible_def)
  next
    fix beta
    show "objective [[(0, 1::real)], [(0, - 1)]] [1/2, 1/2]
            \<le> objective [[(0, 1::real)], [(0, - 1)]] beta"
      unfolding z by (rule objective_nonneg)
  qed
  from aa_weights_sum_one [OF h1] aa_weights_sum_one [OF h2] h1 h2 show ?thesis by simp
qed

end
